theory Spec2Isabelle
  imports Main "HOL-Library.AList"
begin

section \<open>Quest data (src/types/QuestData.ts)\<close>

text \<open>
  A JavaScript number as \<^verbatim>\<open>parseInt\<close> can produce it: \<^verbatim>\<open>NaN\<close>, a finite integral value,
  or an infinity.  Every number of a quest record comes from \<^verbatim>\<open>parseInt(_, 10)\<close>.
\<close>

datatype jsnum = NaN | Num int | PosInf | NegInf

record WorldPoint =
  wp_x :: jsnum
  wp_y :: jsnum
  wp_plane :: jsnum

record QuestStepWithPoint =
  stepDescription :: string
  worldpoint :: WorldPoint

record QuestPanel =
  panelName :: string
  steps :: "QuestStepWithPoint list"

text \<open>The element type of \<^verbatim>\<open>parsePanels\<close>' result: \<^verbatim>\<open>{ panelName, stepVarNames }\<close>.\<close>

record PanelDetails =
  pd_panelName :: string
  stepVarNames :: "string list"

section \<open>Maps\<close>

text \<open>
  A JavaScript \<^verbatim>\<open>Map\<close> keeps its keys in insertion order; \<^verbatim>\<open>set\<close> on a key that is
  present replaces the value where the key stands, on a new key it appends.  That is an
  association list under \<^const>\<open>AList.update\<close>; \<^verbatim>\<open>get\<close> is \<^const>\<open>map_of\<close>.
\<close>

type_synonym ('k, 'v) jsmap = "('k \<times> 'v) list"

definition map_get :: "('k, 'v) jsmap \<Rightarrow> 'k \<Rightarrow> 'v option" where
  "map_get m k = map_of m k"

definition map_has :: "('k, 'v) jsmap \<Rightarrow> 'k \<Rightarrow> bool" where
  "map_has m k = (map_of m k \<noteq> None)"

definition map_set :: "('k, 'v) jsmap \<Rightarrow> 'k \<Rightarrow> 'v \<Rightarrow> ('k, 'v) jsmap" where
  "map_set m k v = AList.update k v m"

section \<open>Strings and character classes\<close>

text \<open>
  A string is a list of 8-bit characters standing for the code units 0 to 255.  The classes
  are those of the regular expressions: \<^verbatim>\<open>\s\<close> (the white space below 256),
  \<^verbatim>\<open>\d\<close> and \<^verbatim>\<open>\w\<close>.
\<close>

definition code :: "char \<Rightarrow> int" where
  "code c = of_char c"

definition is_space :: "char \<Rightarrow> bool" where
  "is_space c = (code c \<in> set [9, 10, 11, 12, 13, 32, 160])"

definition is_digit :: "char \<Rightarrow> bool" where
  "is_digit c = (48 \<le> code c \<and> code c \<le> 57)"

definition is_upper :: "char \<Rightarrow> bool" where
  "is_upper c = (65 \<le> code c \<and> code c \<le> 90)"

definition is_lower :: "char \<Rightarrow> bool" where
  "is_lower c = (97 \<le> code c \<and> code c \<le> 122)"

definition is_alpha_us :: "char \<Rightarrow> bool" where
  "is_alpha_us c = (is_upper c \<or> is_lower c \<or> c = CHR ''_'')"

definition is_word :: "char \<Rightarrow> bool" where
  "is_word c = (is_alpha_us c \<or> is_digit c)"

definition is_not :: "char \<Rightarrow> char \<Rightarrow> bool" where
  "is_not d c = (c \<noteq> d)"

definition to_upper :: "char \<Rightarrow> char" where
  "to_upper c = (if is_lower c then char_of (code c - 32) else c)"

definition to_lower :: "char \<Rightarrow> char" where
  "to_lower c = (if is_upper c then char_of (code c + 32) else c)"

text \<open>\<^verbatim>\<open>s.slice(a, b)\<close>: a negative index counts from the end, both are clamped.\<close>

definition slice_index :: "nat \<Rightarrow> int \<Rightarrow> nat" where
  "slice_index len a = (if a < 0 then nat (max (int len + a) 0) else min (nat a) len)"

definition js_slice :: "string \<Rightarrow> int \<Rightarrow> int \<Rightarrow> string" where
  "js_slice s a b =
     (let from = slice_index (length s) a; to = slice_index (length s) b
      in take (to - from) (drop from s))"

section \<open>Regular expressions\<close>

text \<open>
  The patterns of the program use literal text, character classes, greedy repetition of a
  class (\<^verbatim>\<open>*\<close>, \<^verbatim>\<open>+\<close>, \<^verbatim>\<open>{3,}\<close>), greedy options, sequence, ordered alternatives
  and capture groups.  \<open>Rep n P\<close> is n or more characters of the class P.
\<close>

datatype re =
    Chr "char \<Rightarrow> bool"
  | Str string
  | Rep nat "char \<Rightarrow> bool"
  | Opt re
  | Seq re re
  | Alt re re
  | Grp re

primrec ngroups :: "re \<Rightarrow> nat" where
  "ngroups (Chr P) = 0"
| "ngroups (Str t) = 0"
| "ngroups (Rep n P) = 0"
| "ngroups (Opt r) = ngroups r"
| "ngroups (Seq a b) = ngroups a + ngroups b"
| "ngroups (Alt a b) = ngroups a + ngroups b"
| "ngroups (Grp r) = Suc (ngroups r)"

text \<open>
  The backtracking matcher: every way the pattern matches a prefix of the input, as the
  captures and the input left, in the order a backtracking engine tries them (a greedy
  repetition from the longest down, an option taken before it is skipped, the left
  alternative before the right one).  A group that takes no part is \<open>None\<close>
  (\<^verbatim>\<open>undefined\<close>); groups are numbered by their opening parenthesis.
\<close>

primrec run :: "re \<Rightarrow> string \<Rightarrow> (string option list \<times> string) list" where
  "run (Chr P) s = (case s of [] \<Rightarrow> [] | c # cs \<Rightarrow> if P c then [([], cs)] else [])"
| "run (Str t) s = (if take (length t) s = t then [([], drop (length t) s)] else [])"
| "run (Rep n P) s = map (\<lambda>j. ([], drop j s)) (rev [n ..< Suc (length (takeWhile P s))])"
| "run (Opt r) s = run r s @ [(replicate (ngroups r) None, s)]"
| "run (Seq a b) s =
     concat (map (\<lambda>(c1, s1). map (\<lambda>(c2, s2). (c1 @ c2, s2)) (run b s1)) (run a s))"
| "run (Alt a b) s =
     map (\<lambda>(c, s'). (c @ replicate (ngroups b) None, s')) (run a s) @
     map (\<lambda>(c, s'). (replicate (ngroups a) None @ c, s')) (run b s)"
| "run (Grp r) s = map (\<lambda>(c, s'). (Some (take (length s - length s') s) # c, s')) (run r s)"

definition seqs :: "re list \<Rightarrow> re" where
  "seqs rs = foldr Seq rs (Str [])"

text \<open>A match: \<^verbatim>\<open>m.index\<close>, \<^verbatim>\<open>m[0]\<close> and the groups \<^verbatim>\<open>m[1]\<close>, \<^verbatim>\<open>m[2]\<close>, ...\<close>

record rmatch =
  m_index :: nat
  m_all :: string
  m_groups :: "string option list"

definition m_end :: "rmatch \<Rightarrow> nat" where
  "m_end m = m_index m + length (m_all m)"

text \<open>\<^verbatim>\<open>m[k]\<close> for k from 1; as a string where the program uses it as one.\<close>

definition grp :: "rmatch \<Rightarrow> nat \<Rightarrow> string option" where
  "grp m k = (if 0 < k \<and> k \<le> length (m_groups m) then m_groups m ! (k - 1) else None)"

definition grp_str :: "rmatch \<Rightarrow> nat \<Rightarrow> string" where
  "grp_str m k = (case grp m k of None \<Rightarrow> ''undefined'' | Some w \<Rightarrow> w)"

definition match_here :: "re \<Rightarrow> nat \<Rightarrow> string \<Rightarrow> rmatch option" where
  "match_here r i s =
     (case run r s of
        [] \<Rightarrow> None
      | (c, s') # _ \<Rightarrow> Some \<lparr>m_index = i, m_all = take (length s - length s') s, m_groups = c\<rparr>)"

text \<open>
  The search of \<^verbatim>\<open>exec\<close>: the input from index i on is s; the first index that
  has a match wins.
\<close>

primrec search :: "re \<Rightarrow> nat \<Rightarrow> string \<Rightarrow> rmatch option" where
  "search r i [] = match_here r i []"
| "search r i (c # cs) =
     (case match_here r i (c # cs) of
        Some m \<Rightarrow> Some m
      | None \<Rightarrow> search r (Suc i) cs)"

text \<open>\<^verbatim>\<open>s.match(r)\<close> without the g flag.\<close>

definition js_match :: "re \<Rightarrow> string \<Rightarrow> rmatch option" where
  "js_match r s = search r 0 s"

subsection \<open>What a pattern matches\<close>

text \<open>
  The matches of a pattern, declaratively: the texts it matches, each with the captures of
  that way of matching.  \<open>lang\<close> forgets the captures.
\<close>

primrec parses :: "re \<Rightarrow> (string \<times> string option list) set" where
  "parses (Chr P) = {([c], []) | c. P c}"
| "parses (Str t) = {(t, [])}"
| "parses (Rep n P) = {(w, []) | w. n \<le> length w \<and> (\<forall>c\<in>set w. P c)}"
| "parses (Opt r) = insert ([], replicate (ngroups r) None) (parses r)"
| "parses (Seq a b) = {(u @ v, c1 @ c2) | u v c1 c2. (u, c1) \<in> parses a \<and> (v, c2) \<in> parses b}"
| "parses (Alt a b) =
     {(w, c @ replicate (ngroups b) None) | w c. (w, c) \<in> parses a} \<union>
     {(w, replicate (ngroups a) None @ c) | w c. (w, c) \<in> parses b}"
| "parses (Grp r) = {(w, Some w # c) | w c. (w, c) \<in> parses r}"

definition lang :: "re \<Rightarrow> string set" where
  "lang r = fst ` parses r"

lemma takeWhile_all_prefix:
  "(\<forall>c\<in>set w. P c) \<Longrightarrow> length w \<le> length (takeWhile P (w @ t))"
  by (induction w) auto

lemma take_takeWhile_all:
  "j \<le> length (takeWhile P s) \<Longrightarrow> \<forall>c\<in>set (take j s). P c"
proof (induction s arbitrary: j)
  case Nil
  then show ?case by simp
next
  case (Cons a s)
  then show ?case by (cases j) (auto split: if_splits)
qed

lemma length_takeWhile_le_length: "length (takeWhile P s) \<le> length s"
  by (induction s) auto

lemma run_Rep_set:
  "set (run (Rep n P) s) = (\<lambda>j. ([], drop j s)) ` {j. n \<le> j \<and> j \<le> length (takeWhile P s)}"
proof -
  have "set (rev [n ..< Suc (length (takeWhile P s))]) = {j. n \<le> j \<and> j \<le> length (takeWhile P s)}"
    by (simp only: set_rev set_upt) auto
  then show ?thesis by (simp only: run.simps set_map)
qed

lemma run_Rep_iff:
  "(c, t) \<in> set (run (Rep n P) s) \<longleftrightarrow> (\<exists>w. s = w @ t \<and> (w, c) \<in> parses (Rep n P))"
proof
  assume "(c, t) \<in> set (run (Rep n P) s)"
  then obtain j where j: "n \<le> j" "j \<le> length (takeWhile P s)" "t = drop j s" "c = []"
    unfolding run_Rep_set by blast
  have "j \<le> length s" using j(2) length_takeWhile_le_length[of P s] by linarith
  then have "length (take j s) = j" by simp
  moreover have "\<forall>c\<in>set (take j s). P c" using take_takeWhile_all[OF j(2)] .
  moreover have "s = take j s @ t" using j(3) by simp
  ultimately have "s = take j s @ t \<and> (take j s, c) \<in> parses (Rep n P)"
    using j(1) j(4) by simp
  then show "\<exists>w. s = w @ t \<and> (w, c) \<in> parses (Rep n P)" by (rule exI)
next
  assume "\<exists>w. s = w @ t \<and> (w, c) \<in> parses (Rep n P)"
  then obtain w where w: "n \<le> length w" "\<forall>c\<in>set w. P c" "s = w @ t" "c = []" by auto
  have "length w \<le> length (takeWhile P s)" using takeWhile_all_prefix[OF w(2)] w(3) by simp
  moreover have "t = drop (length w) s" using w(3) by simp
  ultimately show "(c, t) \<in> set (run (Rep n P) s)"
    unfolding run_Rep_set using w(1) w(4) by blast
qed

lemma run_Str_iff:
  "(c, t) \<in> set (run (Str u) s) \<longleftrightarrow> (\<exists>w. s = w @ t \<and> (w, c) \<in> parses (Str u))"
proof (cases "take (length u) s = u")
  case True
  then have "s = u @ drop (length u) s" by (metis append_take_drop_id)
  then show ?thesis using True by auto
next
  case False
  then show ?thesis by auto
qed

lemma in_image_pair:
  "(c, t) \<in> (\<lambda>(a, b). f a b) ` A \<longleftrightarrow> (\<exists>a b. (a, b) \<in> A \<and> (c, t) = f a b)"
  by force

lemma run_Seq_iff:
  "(c, t) \<in> set (run (Seq a b) s) \<longleftrightarrow>
     (\<exists>c1 c2 s1. (c1, s1) \<in> set (run a s) \<and> (c2, t) \<in> set (run b s1) \<and> c = c1 @ c2)"
proof
  assume "(c, t) \<in> set (run (Seq a b) s)"
  then obtain p where p: "p \<in> set (run a s)"
      "(c, t) \<in> set (map (\<lambda>(c2, s2). (fst p @ c2, s2)) (run b (snd p)))"
    by (auto simp: split_def)
  then obtain q where q: "q \<in> set (run b (snd p))" "(c, t) = (fst p @ fst q, snd q)"
    by (auto simp: split_def)
  have "(fst p, snd p) \<in> set (run a s) \<and> (fst q, t) \<in> set (run b (snd p)) \<and> c = fst p @ fst q"
    using p(1) q by simp
  then show "\<exists>c1 c2 s1. (c1, s1) \<in> set (run a s) \<and> (c2, t) \<in> set (run b s1) \<and> c = c1 @ c2"
    by blast
next
  assume "\<exists>c1 c2 s1. (c1, s1) \<in> set (run a s) \<and> (c2, t) \<in> set (run b s1) \<and> c = c1 @ c2"
  then obtain c1 c2 s1 where h: "(c1, s1) \<in> set (run a s)" "(c2, t) \<in> set (run b s1)" "c = c1 @ c2"
    by blast
  have "(c, t) \<in> set (map (\<lambda>(c2, s2). (c1 @ c2, s2)) (run b s1))"
    using h(2) h(3) by (simp add: image_iff) (rule bexI[of _ "(c2, t)"], simp_all)
  then show "(c, t) \<in> set (run (Seq a b) s)"
    using h(1) by (simp add: image_iff) (rule bexI[of _ "(c1, s1)"], simp_all add: image_iff)
qed

lemma run_Alt_iff:
  "(c, t) \<in> set (run (Alt a b) s) \<longleftrightarrow>
     (\<exists>c1. (c1, t) \<in> set (run a s) \<and> c = c1 @ replicate (ngroups b) None) \<or>
     (\<exists>c2. (c2, t) \<in> set (run b s) \<and> c = replicate (ngroups a) None @ c2)"
  by (simp only: run.simps set_map set_append Un_iff in_image_pair) blast

lemma run_Grp_iff:
  "(c, t) \<in> set (run (Grp r) s) \<longleftrightarrow>
     (\<exists>c1. (c1, t) \<in> set (run r s) \<and> c = Some (take (length s - length t) s) # c1)"
  by (simp only: run.simps set_map in_image_pair) blast

lemma run_iff: "(c, t) \<in> set (run r s) \<longleftrightarrow> (\<exists>w. s = w @ t \<and> (w, c) \<in> parses r)"
proof (induction r arbitrary: s c t)
  case (Chr P)
  show ?case by (cases s) auto
next
  case (Str u)
  show ?case by (rule run_Str_iff)
next
  case (Rep n P)
  show ?case by (rule run_Rep_iff)
next
  case (Opt r)
  have "(c, t) \<in> set (run (Opt r) s) \<longleftrightarrow>
        (c, t) \<in> set (run r s) \<or> (c = replicate (ngroups r) None \<and> t = s)" by auto
  then show ?case unfolding Opt by auto
next
  case (Seq a b)
  show ?case unfolding run_Seq_iff Seq
  proof
    assume "\<exists>c1 c2 s1. (\<exists>w. s = w @ s1 \<and> (w, c1) \<in> parses a) \<and>
                         (\<exists>w. s1 = w @ t \<and> (w, c2) \<in> parses b) \<and> c = c1 @ c2"
    then obtain c1 c2 s1 u v where "s = u @ s1" "(u, c1) \<in> parses a" "s1 = v @ t"
      "(v, c2) \<in> parses b" "c = c1 @ c2" by blast
    then have "s = (u @ v) @ t \<and> (u @ v, c) \<in> parses (Seq a b)" by auto
    then show "\<exists>w. s = w @ t \<and> (w, c) \<in> parses (Seq a b)" by (rule exI)
  next
    assume "\<exists>w. s = w @ t \<and> (w, c) \<in> parses (Seq a b)"
    then obtain u v c1 c2 where h: "s = (u @ v) @ t" "(u, c1) \<in> parses a" "(v, c2) \<in> parses b"
      "c = c1 @ c2" by auto
    have "(\<exists>w. s = w @ (v @ t) \<and> (w, c1) \<in> parses a) \<and>
          (\<exists>w. v @ t = w @ t \<and> (w, c2) \<in> parses b) \<and> c = c1 @ c2"
      using h by auto
    then show "\<exists>c1 c2 s1. (\<exists>w. s = w @ s1 \<and> (w, c1) \<in> parses a) \<and>
                         (\<exists>w. s1 = w @ t \<and> (w, c2) \<in> parses b) \<and> c = c1 @ c2"
      by blast
  qed
next
  case (Alt a b)
  show ?case unfolding run_Alt_iff Alt by auto
next
  case (Grp r)
  show ?case unfolding run_Grp_iff Grp by auto
qed

lemma lang_iff: "w \<in> lang r \<longleftrightarrow> (\<exists>c. (w, c) \<in> parses r)"
  unfolding lang_def by force

lemma run_empty_iff: "run r s = [] \<longleftrightarrow> (\<forall>w t. s = w @ t \<longrightarrow> w \<notin> lang r)"
proof -
  have "run r s = [] \<longleftrightarrow> (\<forall>c t. (c, t) \<notin> set (run r s))"
    by (cases "run r s") auto
  also have "\<dots> \<longleftrightarrow> (\<forall>w t. s = w @ t \<longrightarrow> w \<notin> lang r)"
    unfolding run_iff lang_iff by blast
  finally show ?thesis .
qed

lemma match_here_None: "match_here r i s = None \<longleftrightarrow> (\<forall>w t. s = w @ t \<longrightarrow> w \<notin> lang r)"
  unfolding run_empty_iff[symmetric] match_here_def by (auto split: list.splits)

lemma match_here_Some:
  assumes "match_here r i s = Some m"
  shows "m_index m = i \<and> (m_all m, m_groups m) \<in> parses r \<and> (\<exists>t. s = m_all m @ t)"
proof -
  obtain c t rest where r: "run r s = (c, t) # rest"
    and m: "m = \<lparr>m_index = i, m_all = take (length s - length t) s, m_groups = c\<rparr>"
    using assms unfolding match_here_def by (auto split: list.splits)
  have "(c, t) \<in> set (run r s)" using r by simp
  then obtain w where w: "s = w @ t" "(w, c) \<in> parses r" unfolding run_iff by blast
  have "take (length s - length t) s = w" using w(1) by simp
  then show ?thesis using m w by auto
qed

lemma search_None: "search r i s = None \<longleftrightarrow> (\<forall>p w t. s = p @ w @ t \<longrightarrow> w \<notin> lang r)"
proof (induction s arbitrary: i)
  case Nil
  show ?case by (simp add: match_here_None)
next
  case (Cons a s)
  have "search r i (a # s) = None \<longleftrightarrow> match_here r i (a # s) = None \<and> search r (Suc i) s = None"
    by (auto split: option.splits)
  also have "\<dots> \<longleftrightarrow> (\<forall>w t. a # s = w @ t \<longrightarrow> w \<notin> lang r) \<and> (\<forall>p w t. s = p @ w @ t \<longrightarrow> w \<notin> lang r)"
    unfolding match_here_None Cons ..
  also have "\<dots> \<longleftrightarrow> (\<forall>p w t. a # s = p @ w @ t \<longrightarrow> w \<notin> lang r)"
  proof (intro iffI allI impI)
    fix p w t
    assume h: "(\<forall>w t. a # s = w @ t \<longrightarrow> w \<notin> lang r) \<and> (\<forall>p w t. s = p @ w @ t \<longrightarrow> w \<notin> lang r)"
      and e: "a # s = p @ w @ t"
    show "w \<notin> lang r"
    proof (cases p)
      case Nil
      then show ?thesis using h e by simp
    next
      case (Cons b p')
      then have "s = p' @ w @ t" using e by simp
      then show ?thesis using h by blast
    qed
  next
    assume h: "\<forall>p w t. a # s = p @ w @ t \<longrightarrow> w \<notin> lang r"
    show "(\<forall>w t. a # s = w @ t \<longrightarrow> w \<notin> lang r) \<and> (\<forall>p w t. s = p @ w @ t \<longrightarrow> w \<notin> lang r)"
    proof (intro conjI allI impI)
      fix w t assume "a # s = w @ t"
      then have "a # s = [] @ w @ t" by simp
      then show "w \<notin> lang r" using h by blast
    next
      fix p w t assume "s = p @ w @ t"
      then have "a # s = (a # p) @ w @ t" by simp
      then show "w \<notin> lang r" using h by blast
    qed
  qed
  finally show ?case .
qed

text \<open>The match found is the leftmost one: no match starts before it.\<close>

lemma search_Some:
  assumes "search r i s = Some m"
  shows "\<exists>p t. s = p @ m_all m @ t \<and> m_index m = i + length p \<and>
           (m_all m, m_groups m) \<in> parses r \<and>
           match_here r (m_index m) (m_all m @ t) = Some m \<and>
           (\<forall>p' w t'. s = p' @ w @ t' \<and> w \<in> lang r \<longrightarrow> length p \<le> length p')"
  using assms
proof (induction s arbitrary: i)
  case Nil
  then have mh: "match_here r i [] = Some m" by simp
  from match_here_Some[OF mh] have "m_all m = []" "m_index m = i" "(m_all m, m_groups m) \<in> parses r"
    by auto
  then show ?case using mh by (intro exI[of _ "[]"]) auto
next
  case (Cons a s)
  show ?case
  proof (cases "match_here r i (a # s)")
    case (Some m')
    then have mm: "m' = m" using Cons.prems by simp
    from match_here_Some[OF Some] mm obtain t where
      "m_index m = i" "(m_all m, m_groups m) \<in> parses r" "a # s = m_all m @ t" by auto
    then show ?thesis using Some mm by (intro exI[of _ "[]"] exI[of _ t]) auto
  next
    case None
    then have s: "search r (Suc i) s = Some m" using Cons.prems by simp
    from Cons.IH[OF s] obtain p t where pt: "s = p @ m_all m @ t" "m_index m = Suc i + length p"
      "(m_all m, m_groups m) \<in> parses r" "match_here r (m_index m) (m_all m @ t) = Some m"
      "\<forall>p' w t'. s = p' @ w @ t' \<and> w \<in> lang r \<longrightarrow> length p \<le> length p'" by blast
    have least: "\<forall>p' w t'. a # s = p' @ w @ t' \<and> w \<in> lang r \<longrightarrow> length (a # p) \<le> length p'"
    proof (intro allI impI)
      fix p' w t' assume h: "a # s = p' @ w @ t' \<and> w \<in> lang r"
      show "length (a # p) \<le> length p'"
      proof (cases p')
        case Nil
        then have "a # s = w @ t'" using h by simp
        then have "w \<notin> lang r" using None unfolding match_here_None by blast
        then show ?thesis using h by simp
      next
        case (Cons b q)
        then have "s = q @ w @ t'" using h by simp
        then have "length p \<le> length q" using pt(5) h by blast
        then show ?thesis using Cons by simp
      qed
    qed
    have "a # s = (a # p) @ m_all m @ t \<and> m_index m = i + length (a # p) \<and>
           (m_all m, m_groups m) \<in> parses r \<and>
           match_here r (m_index m) (m_all m @ t) = Some m \<and>
           (\<forall>p' w t'. a # s = p' @ w @ t' \<and> w \<in> lang r \<longrightarrow> length (a # p) \<le> length p')"
      using pt least by simp
    then show ?thesis by blast
  qed
qed

lemma search_SomeE:
  assumes "search r i s = Some m"
  obtains p t where "s = p @ m_all m @ t" "m_index m = i + length p"
    "(m_all m, m_groups m) \<in> parses r"
    "\<And>p' w t'. s = p' @ w @ t' \<Longrightarrow> w \<in> lang r \<Longrightarrow> length p \<le> length p'"
proof -
  from search_Some[OF assms] obtain p t where
    c: "s = p @ m_all m @ t \<and> m_index m = i + length p \<and>
           (m_all m, m_groups m) \<in> parses r \<and>
           match_here r (m_index m) (m_all m @ t) = Some m \<and>
           (\<forall>p' w t'. s = p' @ w @ t' \<and> w \<in> lang r \<longrightarrow> length p \<le> length p')"
    by (elim exE)
  show thesis
  proof (rule that[of p t])
    show "s = p @ m_all m @ t" using c by (elim conjE)
    show "m_index m = i + length p" using c by (elim conjE)
    show "(m_all m, m_groups m) \<in> parses r" using c by (elim conjE)
    fix p' w t' assume "s = p' @ w @ t'" "w \<in> lang r"
    moreover have "\<forall>p' w t'. s = p' @ w @ t' \<and> w \<in> lang r \<longrightarrow> length p \<le> length p'"
      using c by (elim conjE)
    ultimately show "length p \<le> length p'" by blast
  qed
qed

lemma search_index:
  assumes "search r i s = Some m"
  shows "\<exists>p t. s = p @ m_all m @ t \<and> m_index m = i + length p \<and> (m_all m, m_groups m) \<in> parses r"
proof (rule search_SomeE[OF assms])
  fix p t assume "s = p @ m_all m @ t" "m_index m = i + length p" "(m_all m, m_groups m) \<in> parses r"
  then show ?thesis by blast
qed

lemma search_leftmost:
  assumes "search r i s = Some m" and "s = p' @ w @ t'" and "w \<in> lang r"
  shows "m_index m \<le> i + length p'"
proof (rule search_SomeE[OF assms(1)])
  fix p t assume "m_index m = i + length p"
    and "\<And>p' w t'. s = p' @ w @ t' \<Longrightarrow> w \<in> lang r \<Longrightarrow> length p \<le> length p'"
  then show ?thesis using assms(2,3) by simp
qed

lemma first_match_check:
  assumes m: "js_match r s = Some m" and idx: "m_index m = length pre"
    and s: "s = pre @ sfx" and one: "map snd (run r sfx) = [t0]" and sfx: "sfx = d @ t0"
  shows "\<forall>p w t. s = p @ w @ t \<and> w \<in> lang r \<longrightarrow>
           length pre \<le> length p \<and> (length p = length pre \<longrightarrow> w = d)"
proof (intro allI impI)
  fix p w t assume h: "s = p @ w @ t \<and> w \<in> lang r"
  from m have "search r 0 s = Some m" by (simp add: js_match_def)
  from search_leftmost[OF this, of p w t] h
  have le: "length pre \<le> length p" using idx by simp
  have "w = d" if eq: "length p = length pre"
  proof -
    have "p @ (w @ t) = pre @ sfx" using h s by simp
    then have "p = pre \<and> sfx = w @ t" using eq by simp
    moreover obtain c where "(w, c) \<in> parses r" using h lang_iff by blast
    ultimately have "(c, t) \<in> set (run r sfx)" unfolding run_iff by blast
    then have "t \<in> set (map snd (run r sfx))" by (simp add: image_iff) (rule bexI[of _ "(c, t)"], simp_all)
    then have "t = t0" using one by simp
    then show ?thesis using \<open>p = pre \<and> sfx = w @ t\<close> sfx by simp
  qed
  then show "length pre \<le> length p \<and> (length p = length pre \<longrightarrow> w = d)" using le by blast
qed

lemma lang_run: "w \<in> lang r \<longleftrightarrow> (\<exists>c. (c, []) \<in> set (run r w))"
proof -
  have "(\<exists>c. (c, []) \<in> set (run r w)) \<longleftrightarrow> (\<exists>c. (w, c) \<in> parses r)"
    unfolding run_iff by simp
  then show ?thesis unfolding lang_iff by simp
qed

lemma lang_code: "w \<in> lang r \<longleftrightarrow> List.member (map snd (run r w)) []"
proof -
  have "(\<exists>c. (c, []) \<in> set (run r w)) \<longleftrightarrow> [] \<in> snd ` set (run r w)"
  proof
    assume "\<exists>c. (c, []) \<in> set (run r w)"
    then obtain c where "(c, []) \<in> set (run r w)" ..
    then show "[] \<in> snd ` set (run r w)" by (rule image_eqI[rotated]) simp
  next
    assume "[] \<in> snd ` set (run r w)"
    then obtain x where "x \<in> set (run r w)" "[] = snd x" by blast
    then have "(fst x, []) \<in> set (run r w)" by (metis prod.collapse)
    then show "\<exists>c. (c, []) \<in> set (run r w)" ..
  qed
  then show ?thesis unfolding lang_run by simp
qed

section \<open>The method-body locator\<close>

text \<open>
  The pattern of \<^verbatim>\<open>extractMethodBody\<close>:
  \<^verbatim>\<open>(?:@Override\s+)?(?:public|protected)\s+(?:\w+(?:<[^>]+>)?\s+)?NAME\s*\([^)]*\)\s*\{\<close>.
  The method name is spliced into the pattern; every call passes an identifier, which
  stands for itself there.
\<close>

definition methodRe :: "string \<Rightarrow> re" where
  "methodRe methodName = seqs
     [Opt (seqs [Str ''@Override'', Rep 1 is_space]),
      Alt (Str ''public'') (Str ''protected''),
      Rep 1 is_space,
      Opt (seqs [Rep 1 is_word, Opt (seqs [Str ''<'', Rep 1 (is_not CHR ''>''), Str ''>'']), Rep 1 is_space]),
      Str methodName,
      Rep 0 is_space,
      Str ''('',
      Rep 0 (is_not CHR '')''),
      Str '')'',
      Rep 0 is_space,
      Str ''{'']"

text \<open>
  The scan: \<^verbatim>\<open>while (i < source.length && depth > 0) { ...; i++ }\<close>, returning the
  final i.  The depth is decremented only while it is positive.
\<close>

function brace_loop :: "string \<Rightarrow> nat \<Rightarrow> nat \<Rightarrow> nat" where
  "brace_loop source i depth =
     (if i < length source \<and> 0 < depth then
        (let c = source ! i in
         brace_loop source (Suc i)
           (if c = CHR ''{'' then depth + 1 else if c = CHR ''}'' then depth - 1 else depth))
      else i)"
  by pat_completeness auto
termination
  by (relation "measure (\<lambda>(source, i, depth). length source - i)") auto

declare brace_loop.simps [simp del]

definition extractMethodBody :: "string \<Rightarrow> string \<Rightarrow> string option" where
  "extractMethodBody source methodName =
     (case js_match (methodRe methodName) source of
        None \<Rightarrow> None
      | Some m \<Rightarrow>
          (let start = m_index m + length (m_all m);
               i = brace_loop source start 1
           in Some (js_slice source (int start) (int i - 1))))"

text \<open>
  Balanced braces, for stating what the locator returns: scanning the text from depth d,
  no closing brace meets depth 0 and the text ends at depth 0.
\<close>

fun balanced_from :: "nat \<Rightarrow> string \<Rightarrow> bool" where
  "balanced_from d [] = (d = 0)"
| "balanced_from d (c # cs) =
     (if c = CHR ''{'' then balanced_from (Suc d) cs
      else if c = CHR ''}'' then 0 < d \<and> balanced_from (d - 1) cs
      else balanced_from d cs)"

definition balanced :: "string \<Rightarrow> bool" where
  "balanced body = balanced_from 0 body"

text \<open>A name that stands for itself when it is spliced into a pattern.\<close>

definition plain_name :: "string \<Rightarrow> bool" where
  "plain_name methodName = list_all is_word methodName"

subsection \<open>The scan stops at the matching brace\<close>

lemma brace_loop_balanced:
  "balanced_from d body \<Longrightarrow>
   brace_loop (p @ body @ CHR ''}'' # rest) (length p) (Suc d) = Suc (length p + length body)"
proof (induction body arbitrary: p d)
  case Nil
  then have d: "d = 0" by simp
  have "brace_loop (p @ CHR ''}'' # rest) (length p) (Suc 0)
        = brace_loop (p @ CHR ''}'' # rest) (Suc (length p)) 0"
    by (subst brace_loop.simps) simp
  also have "\<dots> = Suc (length p)" by (subst brace_loop.simps) simp
  finally show ?case using d by simp
next
  case (Cons c cs)
  let ?src = "p @ (c # cs) @ CHR ''}'' # rest"
  have src: "?src = (p @ [c]) @ cs @ CHR ''}'' # rest" by simp
  have step: "brace_loop ?src (length p) (Suc d)
        = brace_loop ?src (Suc (length p))
            (if c = CHR ''{'' then Suc d + 1 else if c = CHR ''}'' then Suc d - 1 else Suc d)"
    by (subst brace_loop.simps) (simp add: nth_append)
  show ?case
  proof (cases "c = CHR ''{''")
    case True
    then have "balanced_from (Suc d) cs" using Cons.prems by simp
    from Cons.IH[OF this, of "p @ [c]"] show ?thesis using step True src by simp
  next
    case False
    show ?thesis
    proof (cases "c = CHR ''}''")
      case True
      then have d: "0 < d" "balanced_from (d - 1) cs" using Cons.prems by auto
      then obtain d' where d': "d = Suc d'" by (cases d) auto
      from Cons.IH[OF d(2), of "p @ [c]"] show ?thesis using step True src d' by simp
    next
      case c: False
      then have "balanced_from d cs" using Cons.prems False by simp
      from Cons.IH[OF this, of "p @ [c]"] show ?thesis using step False c src by simp
    qed
  qed
qed

lemma js_slice_mid: "js_slice (p @ b @ t) (int (length p)) (int (length p + length b)) = b"
  by (simp add: js_slice_def slice_index_def Let_def)

lemma js_match_None: "js_match r s = None \<longleftrightarrow> (\<forall>p w t. s = p @ w @ t \<longrightarrow> w \<notin> lang r)"
  unfolding js_match_def by (rule search_None)

lemma js_match_first:
  assumes src: "s = pre @ d @ t"
    and d: "d \<in> lang r"
    and first: "\<forall>p w t'. s = p @ w @ t' \<and> w \<in> lang r \<longrightarrow>
                 length pre \<le> length p \<and> (length p = length pre \<longrightarrow> w = d)"
  shows "\<exists>m. js_match r s = Some m \<and> m_index m = length pre \<and> m_all m = d"
proof -
  have "js_match r s \<noteq> None" unfolding js_match_None using src d by blast
  then obtain m where m: "search r 0 s = Some m" unfolding js_match_def by auto
  from search_Some[OF m] obtain p t' where pt: "s = p @ m_all m @ t'" "m_index m = 0 + length p"
    "(m_all m, m_groups m) \<in> parses r"
    "\<forall>p' w t''. s = p' @ w @ t'' \<and> w \<in> lang r \<longrightarrow> length p \<le> length p'" by blast
  have ml: "m_all m \<in> lang r" using pt(3) lang_iff by blast
  have "length p \<le> length pre" using pt(4) src d by blast
  moreover have "length pre \<le> length p \<and> (length p = length pre \<longrightarrow> m_all m = d)"
    using first pt(1) ml by blast
  ultimately have "length p = length pre" "m_all m = d" by auto
  then show ?thesis using m pt(2) unfolding js_match_def by simp
qed

lemma extractMethodBody_None:
  assumes "\<forall>p w t. source = p @ w @ t \<longrightarrow> w \<notin> lang (methodRe methodName)"
  shows "extractMethodBody source methodName = None"
proof -
  have "js_match (methodRe methodName) source = None" using assms unfolding js_match_None .
  then show ?thesis by (simp add: extractMethodBody_def)
qed

lemma extractMethodBody_Some:
  assumes src: "source = pre @ decl @ body @ ''}'' @ rest"
    and decl: "decl \<in> lang (methodRe methodName)"
    and first: "\<forall>p w t. source = p @ w @ t \<and> w \<in> lang (methodRe methodName) \<longrightarrow>
        length pre \<le> length p \<and> (length p = length pre \<longrightarrow> w = decl)"
    and bal: "balanced body"
  shows "extractMethodBody source methodName = Some body"
proof -
  from js_match_first[OF src decl first] obtain m where m: "js_match (methodRe methodName) source = Some m"
    "m_index m = length pre" "m_all m = decl" by blast
  have src2: "source = (pre @ decl) @ body @ CHR ''}'' # rest" using src by simp
  have "balanced_from 0 body" using bal by (simp add: balanced_def)
  from brace_loop_balanced[OF this, of "pre @ decl" rest]
  have loop: "brace_loop source (length pre + length decl) (Suc 0) = Suc (length pre + length decl + length body)"
    unfolding src2 by simp
  have "js_slice source (int (length (pre @ decl))) (int (length (pre @ decl) + length body)) = body"
    unfolding src2 by (rule js_slice_mid)
  then have sl: "js_slice source (int (length pre + length decl)) (int (length pre + length decl + length body)) = body"
    by simp
  have "extractMethodBody source methodName =
     Some (js_slice source (int (length pre + length decl)) (int (brace_loop source (length pre + length decl) 1) - 1))"
    using m by (simp add: extractMethodBody_def Let_def)
  also have "int (brace_loop source (length pre + length decl) 1) - 1 = int (length pre + length decl + length body)"
    using loop by simp
  finally show ?thesis using sl by simp
qed

section \<open>Scanning with the g flag\<close>

text \<open>
  The loop \<^verbatim>\<open>while ((m = regex.exec(body)) !== null)\<close>: each search starts where the
  last match ended (\<^verbatim>\<open>lastIndex\<close>); here the input from index i on is s.  A match of
  the empty string would leave \<^verbatim>\<open>lastIndex\<close> in place and the loop would not end; no
  pattern of the program matches the empty string, and the scan stops there.
\<close>

function exec_all :: "re \<Rightarrow> nat \<Rightarrow> string \<Rightarrow> rmatch list" where
  "exec_all r i s =
     (case search r i s of
        None \<Rightarrow> []
      | Some m \<Rightarrow>
          if m_all m = [] then []
          else m # exec_all r (m_end m) (drop (m_end m - i) s))"
  by pat_completeness auto
termination
proof (relation "measure (\<lambda>(r, i, s). length s)")
  show "wf (measure (\<lambda>(r, i, s). length s))" by simp
next
  fix r i s m
  assume m: "search r i s = Some m" and ne: "m_all m \<noteq> []"
  from search_index[OF m] obtain p t where s: "s = p @ m_all m @ t"
    and idx: "m_index m = i + length p" by blast
  have "m_end m - i = length p + length (m_all m)" using idx by (simp add: m_end_def)
  then have "drop (m_end m - i) s = t" using s by simp
  then have "length (drop (m_end m - i) s) < length s" using s ne by simp
  then show "((r, m_end m, drop (m_end m - i) s), (r, i, s)) \<in> measure (\<lambda>(r, i, s). length s)"
    by simp
qed

declare exec_all.simps [simp del]

text \<open>\<^verbatim>\<open>s.match(r)\<close> with the g flag: the matched texts, or null when there is none.\<close>

definition js_match_all :: "re \<Rightarrow> string \<Rightarrow> string list option" where
  "js_match_all r s = (case exec_all r 0 s of [] \<Rightarrow> None | ms \<Rightarrow> Some (map m_all ms))"

text \<open>
  \<^verbatim>\<open>s.replace(r, f)\<close> with the g flag: the text between the matches is kept, each match
  is replaced by what f makes of it.
\<close>

fun replace_from :: "nat \<Rightarrow> string \<Rightarrow> (rmatch \<Rightarrow> string) \<Rightarrow> rmatch list \<Rightarrow> string" where
  "replace_from i s f [] = s"
| "replace_from i s f (m # ms) =
     take (m_index m - i) s @ f m @ replace_from (m_end m) (drop (m_end m - i) s) f ms"

definition js_replace_all :: "re \<Rightarrow> (rmatch \<Rightarrow> string) \<Rightarrow> string \<Rightarrow> string" where
  "js_replace_all r f s = replace_from 0 s f (exec_all r 0 s)"

section \<open>Numbers and string helpers\<close>

text \<open>
  \<^verbatim>\<open>parseInt(s, 10)\<close>: leading white space and a sign are skipped, the longest run of
  digits is read, and none gives \<^verbatim>\<open>NaN\<close>.  The value becomes a double: exact below
  \<open>2^53\<close>, rounded to 53 significant bits (ties to even) above, and \<^verbatim>\<open>Infinity\<close> once
  the rounded value reaches \<open>2^1024\<close>.
\<close>

datatype sign = Plus | Minus

fun bit_length :: "int \<Rightarrow> nat" where
  "bit_length n = (if n \<le> 0 then 0 else Suc (bit_length (n div 2)))"

declare bit_length.simps [simp del]

definition to_number :: "int \<Rightarrow> jsnum" where
  "to_number n =
     (if n < 2 ^ 53 then Num n
      else
        (let e = bit_length n - 53;
             q = n div 2 ^ e;
             r = n mod 2 ^ e;
             half = 2 ^ (e - 1);
             q' = (if half < r \<or> (r = half \<and> odd q) then q + 1 else q);
             v = q' * 2 ^ e
         in if 2 ^ 1024 \<le> v then PosInf else Num v))"

definition negate :: "jsnum \<Rightarrow> jsnum" where
  "negate v = (case v of NaN \<Rightarrow> NaN | Num k \<Rightarrow> Num (- k) | PosInf \<Rightarrow> NegInf | NegInf \<Rightarrow> PosInf)"

definition decimal :: "string \<Rightarrow> int" where
  "decimal ds = foldl (\<lambda>n c. 10 * n + (code c - 48)) 0 ds"

definition parseInt10 :: "string \<Rightarrow> jsnum" where
  "parseInt10 s =
     (let t = dropWhile is_space s;
          (sg, u) = (case t of
                       [] \<Rightarrow> (Plus, t)
                     | c # cs \<Rightarrow> if c = CHR ''-'' then (Minus, cs)
                                else if c = CHR ''+'' then (Plus, cs) else (Plus, t));
          ds = takeWhile is_digit u
      in if ds = [] then NaN
         else (case sg of Plus \<Rightarrow> to_number (decimal ds) | Minus \<Rightarrow> negate (to_number (decimal ds))))"

text \<open>\<^verbatim>\<open>s.trim()\<close>, \<^verbatim>\<open>s.split(",")\<close> and \<^verbatim>\<open>s.split(/\s+/)\<close>.\<close>

definition js_trim :: "string \<Rightarrow> string" where
  "js_trim s = rev (dropWhile is_space (rev (dropWhile is_space s)))"

fun split_char :: "char \<Rightarrow> string \<Rightarrow> string list" where
  "split_char d [] = [[]]"
| "split_char d (c # cs) =
     (if c = d then [] # split_char d cs
      else (case split_char d cs of [] \<Rightarrow> [[c]] | w # ws \<Rightarrow> (c # w) # ws))"

text \<open>
  Splitting at runs of white space; \<open>skipping\<close> says that the separator run has begun.
\<close>

fun split_ws_from :: "bool \<Rightarrow> string \<Rightarrow> string list" where
  "split_ws_from skipping [] = [[]]"
| "split_ws_from skipping (c # cs) =
     (if is_space c then (if skipping then split_ws_from True cs else [] # split_ws_from True cs)
      else (case split_ws_from False cs of [] \<Rightarrow> [[c]] | w # ws \<Rightarrow> (c # w) # ws))"

definition split_ws :: "string \<Rightarrow> string list" where
  "split_ws s = split_ws_from False s"

text \<open>\<^verbatim>\<open>/^[a-zA-Z_][a-zA-Z0-9_]*$/.test(s)\<close>.\<close>

definition is_identifier :: "string \<Rightarrow> bool" where
  "is_identifier s = (case s of [] \<Rightarrow> False | c # cs \<Rightarrow> is_alpha_us c \<and> list_all is_word cs)"

text \<open>The pattern \<^verbatim>\<open>[a-zA-Z_][a-zA-Z0-9_]*\<close>.\<close>

definition identRe :: re where
  "identRe = Seq (Chr is_alpha_us) (Rep 0 is_word)"

section \<open>The call-pattern extractors\<close>

record ExperienceReward =
  er_skill :: string
  er_xp :: jsnum

record LampReward =
  lr_skills :: string
  lr_value :: jsnum
  lr_quantity :: jsnum

record SkillRequirement =
  skillName :: string
  sr_level :: jsnum

text \<open>The double quote, and the classes \<^verbatim>\<open>[=:]\<close>, \<^verbatim>\<open>[Ll]\<close> and \<^verbatim>\<open>[Aa]\<close>.\<close>

definition dq :: char where
  "dq = CHR 0x22"

definition is_eq_or_colon :: "char \<Rightarrow> bool" where
  "is_eq_or_colon c = (c = CHR ''='' \<or> c = CHR '':'')"

definition is_L :: "char \<Rightarrow> bool" where
  "is_L c = (c = CHR ''L'' \<or> c = CHR ''l'')"

definition is_A :: "char \<Rightarrow> bool" where
  "is_A c = (c = CHR ''A'' \<or> c = CHR ''a'')"

text \<open>\<^verbatim>\<open>parseQuestPoints\<close>: \<^verbatim>\<open>/new\s+QuestPointReward\s*\(\s*(\d+)\s*\)/\<close>.  A body that is
  null or empty is falsy.\<close>

definition questPointRewardRe :: re where
  "questPointRewardRe = seqs
     [Str ''new'', Rep 1 is_space, Str ''QuestPointReward'', Rep 0 is_space, Str ''('',
      Rep 0 is_space, Grp (Rep 1 is_digit), Rep 0 is_space, Str '')'']"

definition parseQuestPoints :: "string \<Rightarrow> jsnum" where
  "parseQuestPoints java =
     (case extractMethodBody java ''getQuestPointReward'' of
        None \<Rightarrow> Num 0
      | Some body \<Rightarrow>
          if body = [] then Num 0
          else (case js_match questPointRewardRe body of
                  None \<Rightarrow> Num 0
                | Some m \<Rightarrow> parseInt10 (grp_str m 1)))"

text \<open>\<^verbatim>\<open>parseExperienceRewards\<close>:
  \<^verbatim>\<open>/new\s+ExperienceReward\s*\(\s*Skill\.(\w+)\s*,\s*(\d+)\s*\)/g\<close>.\<close>

definition experienceRewardRe :: re where
  "experienceRewardRe = seqs
     [Str ''new'', Rep 1 is_space, Str ''ExperienceReward'', Rep 0 is_space, Str ''('',
      Rep 0 is_space, Str ''Skill.'', Grp (Rep 1 is_word), Rep 0 is_space, Str '','',
      Rep 0 is_space, Grp (Rep 1 is_digit), Rep 0 is_space, Str '')'']"

definition parseExperienceRewards :: "string \<Rightarrow> ExperienceReward list" where
  "parseExperienceRewards java =
     (case extractMethodBody java ''getExperienceRewards'' of
        None \<Rightarrow> []
      | Some body \<Rightarrow>
          if body = [] then []
          else foldl (\<lambda>rewards m. rewards @ [\<lparr>er_skill = grp_str m 1, er_xp = parseInt10 (grp_str m 2)\<rparr>])
                 [] (exec_all experienceRewardRe 0 body))"

text \<open>\<^verbatim>\<open>parseLampRewards\<close>.  The lamp pattern is
  \<^verbatim>\<open>/(?:new\s+(?:LampReward|XpLampReward)|ItemReward\s*\(\s*"[^"]*[Ll]amp[^"]*"\s*)[^)]*\)/g\<close>;
  the field patterns follow, each with its fallback.\<close>

definition lampRe :: re where
  "lampRe = seqs
     [Alt (seqs [Str ''new'', Rep 1 is_space, Alt (Str ''LampReward'') (Str ''XpLampReward'')])
          (seqs [Str ''ItemReward'', Rep 0 is_space, Str ''('', Rep 0 is_space, Str [dq],
                 Rep 0 (is_not dq), Chr is_L, Str ''amp'', Rep 0 (is_not dq), Str [dq],
                 Rep 0 is_space]),
      Rep 0 (is_not CHR '')''),
      Str '')'']"

definition skillsRe :: re where
  "skillsRe = seqs
     [Str ''skill'', Opt (Str ''s''), Rep 0 is_space, Chr is_eq_or_colon, Rep 0 is_space,
      Str [dq], Grp (Rep 1 (is_not dq)), Str [dq]]"

definition anyRe :: re where
  "anyRe = seqs
     [Str [dq], Grp (seqs [Rep 0 (is_not dq), Chr is_A, Str ''ny'', Rep 0 (is_not dq)]), Str [dq]]"

definition valueRe :: re where
  "valueRe = seqs [Str ''value'', Rep 0 is_space, Chr is_eq_or_colon, Rep 0 is_space, Grp (Rep 1 is_digit)]"

definition digits3Re :: re where
  "digits3Re = Grp (Rep 3 is_digit)"

definition quantityRe :: re where
  "quantityRe = seqs [Str ''quantity'', Rep 0 is_space, Chr is_eq_or_colon, Rep 0 is_space, Grp (Rep 1 is_digit)]"

definition lastArgRe :: re where
  "lastArgRe = seqs [Str '','', Grp (Rep 1 is_digit), Rep 0 is_space, Str '')'']"

text \<open>\<^verbatim>\<open>a ?? b\<close> on two match results.\<close>

definition orElse :: "'a option \<Rightarrow> 'a option \<Rightarrow> 'a option" where
  "orElse a b = (case a of None \<Rightarrow> b | Some v \<Rightarrow> Some v)"

definition lampFields :: "string \<Rightarrow> LampReward" where
  "lampFields first =
     (let skillsMatch = orElse (js_match skillsRe first) (js_match anyRe first);
          valueMatch = orElse (js_match valueRe first) (js_match digits3Re first);
          qtyMatch = orElse (js_match quantityRe first) (js_match lastArgRe first)
      in \<lparr>lr_skills = (case skillsMatch of None \<Rightarrow> ''Any'' | Some m \<Rightarrow> grp_str m 1),
          lr_value = (case valueMatch of None \<Rightarrow> Num 0 | Some m \<Rightarrow> parseInt10 (grp_str m 1)),
          lr_quantity = (case qtyMatch of None \<Rightarrow> Num 1 | Some m \<Rightarrow> parseInt10 (grp_str m 1))\<rparr>)"

definition parseLampRewards :: "string \<Rightarrow> LampReward option" where
  "parseLampRewards java =
     (case extractMethodBody java ''getItemRewards'' of
        None \<Rightarrow> None
      | Some body \<Rightarrow>
          if body = [] then None
          else (case js_match_all lampRe body of
                  None \<Rightarrow> None
                | Some lampMatch \<Rightarrow>
                    (case lampMatch of
                       [] \<Rightarrow> None
                     | first # _ \<Rightarrow> Some (lampFields first))))"

text \<open>\<^verbatim>\<open>skillEnumToDisplay\<close>: the first character in upper case, the rest in lower case.\<close>

definition skillEnumToDisplay :: "string \<Rightarrow> string" where
  "skillEnumToDisplay s = map to_upper (take 1 s) @ map to_lower (drop 1 s)"

text \<open>
  \<^verbatim>\<open>s.replace(/\b\w/g, (c) => c.toUpperCase())\<close>: a word character is put in upper case
  when it stands first or after a character that is not one.
\<close>

fun upper_word_starts :: "bool \<Rightarrow> string \<Rightarrow> string" where
  "upper_word_starts after_word [] = []"
| "upper_word_starts after_word (c # cs) =
     (if is_word c \<and> \<not> after_word then to_upper c else c) # upper_word_starts (is_word c) cs"

text \<open>The display name of a quest identifier:
  \<^verbatim>\<open>m[1].replace(/_/g, " ").replace(/\b\w/g, (c) => c.toUpperCase())\<close>.\<close>

definition questDisplayName :: "string \<Rightarrow> string" where
  "questDisplayName ident =
     upper_word_starts False (map (\<lambda>c. if c = CHR ''_'' then CHR '' '' else c) ident)"

record GeneralRequirements =
  skillRequirements :: "SkillRequirement list"
  questRequirements :: "string list"
  questPointRequirement :: "jsnum option"

definition skillRequirementRe :: re where
  "skillRequirementRe = seqs
     [Str ''new'', Rep 1 is_space, Str ''SkillRequirement'', Rep 0 is_space, Str ''('',
      Rep 0 is_space, Str ''Skill.'', Grp (Rep 1 is_word), Rep 0 is_space, Str '','',
      Rep 0 is_space, Grp (Rep 1 is_digit)]"

definition questRequirementRe :: re where
  "questRequirementRe = seqs
     [Str ''QuestRequirement'', Rep 0 is_space, Str ''('', Rep 0 is_space,
      Str ''QuestHelperQuest.'', Grp (Rep 1 is_word)]"

definition questPointRequirementRe :: re where
  "questPointRequirementRe = seqs
     [Str ''new'', Rep 1 is_space, Str ''QuestPointRequirement'', Rep 0 is_space, Str ''('',
      Rep 0 is_space, Grp (Rep 1 is_digit), Rep 0 is_space, Str '')'']"

text \<open>The loop over the quest references: a name is pushed unless the list includes it.\<close>

definition push_new :: "string list \<Rightarrow> string \<Rightarrow> string list" where
  "push_new acc nm = (if nm \<in> set acc then acc else acc @ [nm])"

definition parseGeneralRequirements :: "string \<Rightarrow> GeneralRequirements" where
  "parseGeneralRequirements java =
     (case extractMethodBody java ''getGeneralRequirements'' of
        None \<Rightarrow> \<lparr>skillRequirements = [], questRequirements = [], questPointRequirement = None\<rparr>
      | Some body \<Rightarrow>
          if body = [] then
            \<lparr>skillRequirements = [], questRequirements = [], questPointRequirement = None\<rparr>
          else
            \<lparr>skillRequirements =
               foldl (\<lambda>acc m. acc @ [\<lparr>skillName = skillEnumToDisplay (grp_str m 1),
                                         sr_level = parseInt10 (grp_str m 2)\<rparr>])
                 [] (exec_all skillRequirementRe 0 body),
             questRequirements =
               foldl (\<lambda>acc m. push_new acc (questDisplayName (grp_str m 1)))
                 [] (exec_all questRequirementRe 0 body),
             questPointRequirement =
               (case js_match questPointRequirementRe body of
                  None \<Rightarrow> None
                | Some m \<Rightarrow> Some (parseInt10 (grp_str m 1)))\<rparr>)"

text \<open>
  \<^verbatim>\<open>parseItemRequirementVarNames\<close>: the inline list (\<^verbatim>\<open>List.of\<close>, else
  \<^verbatim>\<open>Arrays.asList\<close>), else the \<^verbatim>\<open>add\<close> calls.  \<open>last_word\<close> is
  \<^verbatim>\<open>v.split(/\s+/).pop() ?? v\<close>.
\<close>

definition listOfRe :: re where
  "listOfRe = seqs [Str ''List.of'', Rep 0 is_space, Str ''('', Rep 0 is_space,
                    Grp (Rep 1 (is_not CHR '')'')), Str '')'']"

definition asListRe :: re where
  "asListRe = seqs [Str ''Arrays.asList'', Rep 0 is_space, Str ''('', Rep 0 is_space,
                    Grp (Rep 1 (is_not CHR '')'')), Str '')'']"

definition addRe :: re where
  "addRe = seqs [Alt (Str ''reqs.add'') (Str ''.add''), Rep 0 is_space, Str ''('', Rep 0 is_space,
                 Grp identRe, Rep 0 is_space, Str '')'']"

definition last_word :: "string \<Rightarrow> string" where
  "last_word v = (case rev (split_ws v) of [] \<Rightarrow> v | w # _ \<Rightarrow> w)"

definition parseItemRequirementVarNames :: "string \<Rightarrow> string list" where
  "parseItemRequirementVarNames java =
     (case extractMethodBody java ''getItemRequirements'' of
        None \<Rightarrow> []
      | Some body \<Rightarrow>
          if body = [] then []
          else (case orElse (js_match listOfRe body) (js_match asListRe body) of
                  Some listMatch \<Rightarrow>
                    foldl (\<lambda>names v. let nm = last_word v
                                      in if nm \<noteq> [] \<and> is_identifier nm then names @ [nm] else names)
                      [] (map js_trim (split_char CHR '','' (grp_str listMatch 1)))
                | None \<Rightarrow>
                    foldl (\<lambda>names am. names @ [grp_str am 1]) [] (exec_all addRe 0 body)))"

section \<open>The symbolic reference resolver\<close>

text \<open>
  \<^verbatim>\<open>parseSetupRequirements\<close> fills two maps: the display string of every
  \<^verbatim>\<open>x = new ItemRequirement("...")\<close> and the base variable of every
  \<^verbatim>\<open>x = y.highlighted()\<close> or \<^verbatim>\<open>x = y.alsoCheckBank()\<close>.
\<close>

definition reqRe :: re where
  "reqRe = seqs
     [Grp identRe, Rep 0 is_space, Str ''='', Rep 0 is_space, Str ''new'', Rep 1 is_space,
      Str ''ItemRequirement'', Rep 0 is_space, Str ''('', Rep 0 is_space, Str [dq],
      Grp (Rep 0 (is_not dq)), Str [dq]]"

definition aliasRe :: re where
  "aliasRe = seqs
     [Grp identRe, Rep 0 is_space, Str ''='', Rep 0 is_space, Grp identRe, Rep 0 is_space,
      Str ''.'', Alt (Str ''highlighted'') (Str ''alsoCheckBank''), Rep 0 is_space, Str ''('',
      Rep 0 is_space, Str '')'']"

text \<open>
  \<^verbatim>\<open>resolve\<close>.  A string is truthy when it is not empty.  The recursion has no guard:
  on a cycle of aliases it does not return (the engine ends it with a RangeError when the
  stack is full), which is the value \<open>None\<close> here; \<open>Some None\<close> is \<^verbatim>\<open>undefined\<close>.
\<close>

partial_function (option) resolve ::
  "(string, string) jsmap \<Rightarrow> (string, string) jsmap \<Rightarrow> string \<Rightarrow> string option option" where
  "resolve displayByVar alias nm =
     (case map_get displayByVar nm of
        Some direct \<Rightarrow>
          if direct \<noteq> [] then Some (Some direct)
          else (case map_get alias nm of
                  Some target \<Rightarrow> if target \<noteq> [] then resolve displayByVar alias target else Some None
                | None \<Rightarrow> Some None)
      | None \<Rightarrow>
          (case map_get alias nm of
             Some target \<Rightarrow> if target \<noteq> [] then resolve displayByVar alias target else Some None
           | None \<Rightarrow> Some None))"

declare resolve.simps [code]

text \<open>The second loop of \<^verbatim>\<open>parseSetupRequirements\<close>, over the keys of the alias map.\<close>

fun resolve_keys ::
  "(string, string) jsmap \<Rightarrow> (string, string) jsmap \<Rightarrow> string list \<Rightarrow> (string, string) jsmap
     \<Rightarrow> (string, string) jsmap option" where
  "resolve_keys displayByVar alias [] result = Some result"
| "resolve_keys displayByVar alias (k # ks) result =
     (case resolve displayByVar alias k of
        None \<Rightarrow> None
      | Some resolved \<Rightarrow>
          resolve_keys displayByVar alias ks
            (case resolved of
               None \<Rightarrow> result
             | Some d \<Rightarrow> if d \<noteq> [] then map_set result k d else result))"

definition displayByVar_of :: "string \<Rightarrow> (string, string) jsmap" where
  "displayByVar_of body =
     foldl (\<lambda>dv m. map_set dv (grp_str m 1) (grp_str m 2)) [] (exec_all reqRe 0 body)"

definition alias_of :: "string \<Rightarrow> (string, string) jsmap" where
  "alias_of body =
     foldl (\<lambda>al m. map_set al (grp_str m 1) (grp_str m 2)) [] (exec_all aliasRe 0 body)"

text \<open>
  \<^verbatim>\<open>parseSetupRequirements\<close>; \<open>None\<close> when \<^verbatim>\<open>resolve\<close> does not return.  The
  result starts as a copy of the display map.
\<close>

definition parseSetupRequirements :: "string \<Rightarrow> (string, string) jsmap option" where
  "parseSetupRequirements java =
     (case extractMethodBody java ''setupRequirements'' of
        None \<Rightarrow> Some []
      | Some body \<Rightarrow>
          if body = [] then Some []
          else
            (let displayByVar = displayByVar_of body;
                 alias = alias_of body;
                 result = foldl (\<lambda>res (k, v). map_set res k v) [] displayByVar
             in resolve_keys displayByVar alias (map fst alias) result))"

text \<open>\<^verbatim>\<open>resolveItemRequirements\<close>: the display strings of the names, each once.\<close>

definition resolveItemRequirements :: "string list \<Rightarrow> (string, string) jsmap \<Rightarrow> string list" where
  "resolveItemRequirements varNames setupReqs =
     fst (foldl (\<lambda>(out, seen) v.
            case map_get setupReqs v of
              None \<Rightarrow> (out, seen)
            | Some display \<Rightarrow>
                if display \<noteq> [] \<and> display \<notin> seen then (out @ [display], insert display seen)
                else (out, seen))
          ([], {}) varNames)"

section \<open>The literal-string reconstructor\<close>

text \<open>
  \<^verbatim>\<open>readConcatenatedString\<close>, a closure over the body.  \<open>read_chars\<close> is the inner loop
  that reads one fragment from index i (a backslash skips itself and the next character,
  a quote ends the fragment), \<open>skip_spaces\<close> the two white-space loops, \<open>read_parts\<close> the
  outer loop.  \<^verbatim>\<open>body[i]\<close> past the end is \<^verbatim>\<open>undefined\<close>: \<open>None\<close>.
\<close>

definition char_at :: "string \<Rightarrow> nat \<Rightarrow> char option" where
  "char_at s i = (if i < length s then Some (s ! i) else None)"

function read_chars :: "string \<Rightarrow> nat \<Rightarrow> string \<Rightarrow> string \<times> nat" where
  "read_chars body i s =
     (if i < length body then
        (let c = body ! i in
         if c = CHR 0x5C then read_chars body (i + 2) s
         else if c = dq then (s, i + 1)
         else read_chars body (i + 1) (s @ [c]))
      else (s, i))"
  by pat_completeness auto
termination
  by (relation "measure (\<lambda>(body, i, s). length body - i)") auto

declare read_chars.simps [simp del]

function skip_spaces :: "string \<Rightarrow> nat \<Rightarrow> nat" where
  "skip_spaces body i =
     (if i < length body \<and> is_space (body ! i) then skip_spaces body (i + 1) else i)"
  by pat_completeness auto
termination
  by (relation "measure (\<lambda>(body, i). length body - i)") auto

declare skip_spaces.simps [simp del]

lemma read_chars_ge: "i \<le> snd (read_chars body i s)"
proof (induction body i s rule: read_chars.induct)
  case (1 body i s)
  show ?case
    using "1.IH" by (subst read_chars.simps) (auto simp: Let_def intro: order_trans[rotated])
qed

lemma skip_spaces_ge: "i \<le> skip_spaces body i"
proof (induction body i rule: skip_spaces.induct)
  case (1 body i)
  show ?case
    using "1.IH" by (subst skip_spaces.simps) (auto intro: order_trans[rotated])
qed

function read_parts :: "string \<Rightarrow> nat \<Rightarrow> string list \<Rightarrow> string list" where
  "read_parts body i parts =
     (if i < length body then
        (let r = read_chars body (i + 1) [];
             parts' = parts @ [fst r];
             i2 = skip_spaces body (snd r)
         in if char_at body i2 \<noteq> Some CHR ''+'' then parts'
            else (let i3 = skip_spaces body (i2 + 1)
                  in if char_at body i3 \<noteq> Some dq then parts'
                     else read_parts body i3 parts'))
      else parts)"
  by pat_completeness auto
termination
proof (relation "measure (\<lambda>(body, i, parts). length body - i)")
  show "wf (measure (\<lambda>(body, i, parts). length body - i))" by simp
next
  fix body :: string and i :: nat and parts :: "string list" and r parts' i2 i3
  assume "i < length body" and r: "r = read_chars body (i + 1) []"
    and i2: "i2 = skip_spaces body (snd r)" and i3: "i3 = skip_spaces body (i2 + 1)"
    and c: "\<not> char_at body i3 \<noteq> Some dq"
  have "i + 1 \<le> snd r" unfolding r by (rule read_chars_ge)
  also have "\<dots> \<le> i2" unfolding i2 by (rule skip_spaces_ge)
  also have "\<dots> < i2 + 1" by simp
  also have "\<dots> \<le> i3" unfolding i3 by (rule skip_spaces_ge)
  finally have "i < i3" by simp
  moreover have "i3 < length body" using c by (auto simp: char_at_def split: if_splits)
  ultimately show "((body, i3, parts'), (body, i, parts)) \<in> measure (\<lambda>(body, i, parts). length body - i)"
    by simp
qed

declare read_parts.simps [simp del]

definition readConcatenatedString :: "string \<Rightarrow> nat \<Rightarrow> string" where
  "readConcatenatedString body openQuoteIndex = concat (read_parts body openQuoteIndex [])"

section \<open>Steps and panels\<close>

text \<open>
  The step patterns of \<^verbatim>\<open>parseSetupSteps\<close>,
  \<^verbatim>\<open>NAME\s*=\s*new\s+KIND\s*\(\s*this\s*,\s*[^,]+,\s*new\s+WorldPoint\s*\(\s*(\d+)\s*,\s*(\d+)\s*,\s*(\d+)\s*\)\s*,\s*"\<close>,
  where KIND is \<^verbatim>\<open>(?:NpcStep|ObjectStep)\<close> in the first and \<^verbatim>\<open>ObjectStep\<close> in the second.
\<close>

definition stepRe :: "re \<Rightarrow> re" where
  "stepRe kind = seqs
     [Grp identRe, Rep 0 is_space, Str ''='', Rep 0 is_space, Str ''new'', Rep 1 is_space,
      kind, Rep 0 is_space, Str ''('', Rep 0 is_space, Str ''this'', Rep 0 is_space, Str '','',
      Rep 0 is_space, Rep 1 (is_not CHR '',''), Str '','', Rep 0 is_space, Str ''new'',
      Rep 1 is_space, Str ''WorldPoint'', Rep 0 is_space, Str ''('', Rep 0 is_space,
      Grp (Rep 1 is_digit), Rep 0 is_space, Str '','', Rep 0 is_space,
      Grp (Rep 1 is_digit), Rep 0 is_space, Str '','', Rep 0 is_space,
      Grp (Rep 1 is_digit), Rep 0 is_space, Str '')'', Rep 0 is_space, Str '','',
      Rep 0 is_space, Str [dq]]"

definition stepAssignRegex :: re where
  "stepAssignRegex = stepRe (Alt (Str ''NpcStep'') (Str ''ObjectStep''))"

definition objectStepRegex :: re where
  "objectStepRegex = stepRe (Str ''ObjectStep'')"

text \<open>The record a match gives: the description is read from the quote that ends the match.\<close>

definition step_of :: "string \<Rightarrow> rmatch \<Rightarrow> QuestStepWithPoint" where
  "step_of body m =
     (let strStart = m_index m + length (m_all m) - 1;
          desc = readConcatenatedString body strStart
      in \<lparr>stepDescription = desc,
          worldpoint = \<lparr>wp_x = parseInt10 (grp_str m 2),
                         wp_y = parseInt10 (grp_str m 3),
                         wp_plane = parseInt10 (grp_str m 4)\<rparr>\<rparr>)"

definition set_step :: "string \<Rightarrow> (string, QuestStepWithPoint) jsmap \<Rightarrow> rmatch \<Rightarrow> (string, QuestStepWithPoint) jsmap" where
  "set_step body mp m = map_set mp (grp_str m 1) (step_of body m)"

definition set_step_if_absent :: "string \<Rightarrow> (string, QuestStepWithPoint) jsmap \<Rightarrow> rmatch \<Rightarrow> (string, QuestStepWithPoint) jsmap" where
  "set_step_if_absent body mp m =
     (if \<not> map_has mp (grp_str m 1) then map_set mp (grp_str m 1) (step_of body m) else mp)"

definition steps_of_body :: "string \<Rightarrow> (string, QuestStepWithPoint) jsmap" where
  "steps_of_body body =
     foldl (set_step_if_absent body)
       (foldl (set_step body) [] (exec_all stepAssignRegex 0 body))
       (exec_all objectStepRegex 0 body)"

definition parseSetupSteps :: "string \<Rightarrow> (string, QuestStepWithPoint) jsmap" where
  "parseSetupSteps java =
     (case extractMethodBody java ''setupSteps'' of
        None \<Rightarrow> []
      | Some body \<Rightarrow> if body = [] then [] else steps_of_body body)"

text \<open>\<^verbatim>\<open>parsePanels\<close>: a title and a list written in one of three ways.\<close>

definition panelRe :: re where
  "panelRe = seqs
     [Opt (seqs [Str ''new'', Rep 1 is_space]), Str ''PanelDetails'', Rep 0 is_space, Str ''('',
      Rep 0 is_space, Str [dq], Grp (Rep 1 (is_not dq)), Str [dq], Rep 0 is_space, Str '','',
      Rep 0 is_space,
      Alt (seqs [Str ''List.of'', Rep 0 is_space, Str ''('', Grp (Rep 1 (is_not CHR '')'')), Str '')''])
     (Alt (seqs [Str ''Arrays.asList'', Rep 0 is_space, Str ''('', Grp (Rep 1 (is_not CHR '')'')), Str '')''])
          (seqs [Str ''Collections.singletonList'', Rep 0 is_space, Str ''('',
                 Grp (Rep 1 (is_not CHR '')'')), Str '')'']))]"

definition panel_of :: "rmatch \<Rightarrow> PanelDetails" where
  "panel_of m =
     (let title = grp_str m 1;
          stepsSource = (case orElse (grp m 2) (orElse (grp m 3) (grp m 4)) of
                           None \<Rightarrow> [] | Some w \<Rightarrow> w);
          stepVars = filter is_identifier
                       (map (\<lambda>s. last_word (js_trim s)) (split_char CHR '','' stepsSource))
      in \<lparr>pd_panelName = title, stepVarNames = stepVars\<rparr>)"

definition parsePanels :: "string \<Rightarrow> PanelDetails list" where
  "parsePanels java =
     (case extractMethodBody java ''getPanels'' of
        None \<Rightarrow> []
      | Some body \<Rightarrow>
          if body = [] then []
          else foldl (\<lambda>panels m. panels @ [panel_of m]) [] (exec_all panelRe 0 body))"

section \<open>The record assembler\<close>

text \<open>
  \<^verbatim>\<open>buildSteps\<close>: the outer loop pushes one panel per grouping, the inner loop pushes a
  step for every variable name that \<^verbatim>\<open>stepData.get\<close> finds (an object is truthy).
\<close>

definition panel_steps :: "(string, QuestStepWithPoint) jsmap \<Rightarrow> string list \<Rightarrow> QuestStepWithPoint list" where
  "panel_steps stepData names =
     foldl (\<lambda>acc varName.
         case map_get stepData varName of
           None \<Rightarrow> acc
         | Some d \<Rightarrow> acc @ [\<lparr>stepDescription = stepDescription d, worldpoint = worldpoint d\<rparr>])
       [] names"

definition buildSteps :: "PanelDetails list \<Rightarrow> (string, QuestStepWithPoint) jsmap \<Rightarrow> QuestPanel list" where
  "buildSteps panels stepData =
     foldl (\<lambda>result panel.
         result @ [\<lparr>panelName = pd_panelName panel, steps = panel_steps stepData (stepVarNames panel)\<rparr>])
       [] panels"

section \<open>Properties of the method-body locator\<close>

text \<open>
  C1, as amended.  A declaration is a text the pattern of the locator matches: an optional
  \<^verbatim>\<open>@Override\<close>, \<^verbatim>\<open>public\<close> or \<^verbatim>\<open>protected\<close>, an optional return type, the name,
  a parameter list and the opening brace.  When the source holds no declaration of the
  name, \<open>extractMethodBody\<close> returns \<open>None\<close> (the model is a total function: nothing is
  thrown).  When the first declaration in the source is followed by a body with balanced
  braces and the closing brace, it returns exactly that body: the text between the opening
  brace of the declaration and the matching closing brace, both left out.  "First" is
  stated on the source: no match of the pattern starts earlier, and the declaration is the
  match at its own start.
\<close>

theorem extractMethodBody_span:
  "plain_name methodName \<longrightarrow>
   ((\<forall>p w t. source = p @ w @ t \<longrightarrow> w \<notin> lang (methodRe methodName)) \<longrightarrow>
      extractMethodBody source methodName = None) \<and>
   (source = pre @ decl @ body @ ''}'' @ rest \<and> decl \<in> lang (methodRe methodName) \<and>
    (\<forall>p w t. source = p @ w @ t \<and> w \<in> lang (methodRe methodName) \<longrightarrow>
        length pre \<le> length p \<and> (length p = length pre \<longrightarrow> w = decl)) \<and>
    balanced body \<longrightarrow>
      extractMethodBody source methodName = Some body)"
  using extractMethodBody_None[of source methodName]
    extractMethodBody_Some[of source pre decl body rest methodName]
  by blast


theorem extractMethodBody_span_witness:
  "plain_name ''f'' \<and> balanced ''a{b}c'' \<and> ''public void f() {'' \<in> lang (methodRe ''f'') \<and>
   extractMethodBody ''class A { public void f() {a{b}c} }'' ''f'' = Some ''a{b}c'' \<and>
   extractMethodBody ''class A { void f() {a{b}c} }'' ''f'' = None"
proof -
  have n: "plain_name ''f''" by code_simp
  have b: "balanced ''a{b}c''" by code_simp
  have d: "''public void f() {'' \<in> lang (methodRe ''f'')" unfolding lang_code by code_simp
  have m: "js_match (methodRe ''f'') ''class A { public void f() {a{b}c} }'' =
      Some \<lparr>m_index = 10, m_all = ''public void f() {'', m_groups = []\<rparr>" by code_simp
  have one: "map snd (run (methodRe ''f'') ''public void f() {a{b}c} }'') = [''a{b}c} }'']"
    by code_simp
  have first: "\<forall>p w t. ''class A { public void f() {a{b}c} }'' = p @ w @ t \<and> w \<in> lang (methodRe ''f'') \<longrightarrow>
      length ''class A { '' \<le> length p \<and> (length p = length ''class A { '' \<longrightarrow> w = ''public void f() {'')"
    by (rule first_match_check[OF m _ _ one]) simp_all
  have none: "\<forall>p w t. ''class A { void f() {a{b}c} }'' = p @ w @ t \<longrightarrow> w \<notin> lang (methodRe ''f'')"
    unfolding js_match_None[symmetric] by code_simp
  have src: "''class A { public void f() {a{b}c} }'' = ''class A { '' @ ''public void f() {'' @ ''a{b}c'' @ ''}'' @ '' }''"
    by simp
  have found: "extractMethodBody ''class A { public void f() {a{b}c} }'' ''f'' = Some ''a{b}c''"
    using extractMethodBody_span[where methodName = "''f''"
        and source = "''class A { public void f() {a{b}c} }''" and pre = "''class A { ''"
        and decl = "''public void f() {''" and body = "''a{b}c''" and rest = "'' }''"]
      n b d first src by blast
  have missing: "extractMethodBody ''class A { void f() {a{b}c} }'' ''f'' = None"
    using extractMethodBody_span[where methodName = "''f''"
        and source = "''class A { void f() {a{b}c} }''"] n none by blast
  show ?thesis using n b d found missing by blast
qed

text \<open>
  C1 as stated fails on well-formed declarations that the pattern does not match: a
  private method, a method with an array return type and a method with a \<^verbatim>\<open>throws\<close>
  clause are not found although their braces are balanced, and a method declared without
  a modifier is passed over for a later public one of the same name.
\<close>

theorem extractMethodBody_wellformed_counterexample:
  "balanced ''a{b}c'' \<and>
   extractMethodBody ''class A { private void f() {a{b}c} }'' ''f'' = None \<and>
   extractMethodBody ''class A { public int[] f() {a{b}c} }'' ''f'' = None \<and>
   extractMethodBody ''class A { public void f() throws E {a{b}c} }'' ''f'' = None \<and>
   extractMethodBody ''void f() {a{b}c} public void f() {d}'' ''f'' = Some ''d''"
  by code_simp

subsection \<open>Membership rules\<close>

lemma lang_Chr: "w \<in> lang (Chr P) \<longleftrightarrow> (\<exists>c. w = [c] \<and> P c)"
  unfolding lang_iff by simp

lemma lang_Str: "w \<in> lang (Str t) \<longleftrightarrow> w = t"
  unfolding lang_iff by simp

lemma lang_Rep: "w \<in> lang (Rep n P) \<longleftrightarrow> n \<le> length w \<and> list_all P w"
  unfolding lang_iff by (simp add: list_all_iff)

lemma lang_Opt: "w \<in> lang (Opt r) \<longleftrightarrow> w = [] \<or> w \<in> lang r"
  unfolding lang_iff by auto

lemma lang_Seq: "w \<in> lang (Seq a b) \<longleftrightarrow> (\<exists>u v. w = u @ v \<and> u \<in> lang a \<and> v \<in> lang b)"
  unfolding lang_iff by simp blast

lemma lang_Alt: "w \<in> lang (Alt a b) \<longleftrightarrow> w \<in> lang a \<or> w \<in> lang b"
  unfolding lang_iff by auto

lemma lang_Grp: "w \<in> lang (Grp r) \<longleftrightarrow> w \<in> lang r"
  unfolding lang_iff by auto

lemma lang_seqs_Nil: "w \<in> lang (seqs []) \<longleftrightarrow> w = []"
  by (simp add: seqs_def lang_Str)

lemma lang_seqs_Cons:
  "w \<in> lang (seqs (r # rs)) \<longleftrightarrow> (\<exists>u v. w = u @ v \<and> u \<in> lang r \<and> v \<in> lang (seqs rs))"
  by (simp add: seqs_def lang_Seq)

lemma lang_seqs_ConsI:
  "u \<in> lang r \<Longrightarrow> v \<in> lang (seqs rs) \<Longrightarrow> u @ v \<in> lang (seqs (r # rs))"
  unfolding lang_seqs_Cons by blast

lemma lang_seqs_NilI: "[] \<in> lang (seqs [])"
  by (simp add: lang_seqs_Nil)

lemma lang_seqs_ConsE:
  assumes "w \<in> lang (seqs (r # rs))"
  obtains u v where "w = u @ v" "u \<in> lang r" "v \<in> lang (seqs rs)"
  using assms unfolding lang_seqs_Cons by blast

section \<open>Which declarations the locator finds\<close>

text \<open>
  The parts of a declaration as the pattern reads them: white space, the optional return
  type \<^verbatim>\<open>\w+(?:<[^>]+>)?\s+\<close> and the optional \<^verbatim>\<open>@Override\s+\<close>.
\<close>

definition spaces :: "string \<Rightarrow> bool" where
  "spaces ws = list_all is_space ws"

definition return_type :: "string \<Rightarrow> bool" where
  "return_type rtype \<longleftrightarrow>
     (\<exists>tname targs ws. rtype = tname @ targs @ ws \<and>
        tname \<noteq> [] \<and> list_all is_word tname \<and>
        (targs = [] \<or> (\<exists>a. targs = ''<'' @ a @ ''>'' \<and> a \<noteq> [] \<and> list_all (is_not CHR ''>'') a)) \<and>
        ws \<noteq> [] \<and> spaces ws)"

definition override_prefix :: "string \<Rightarrow> bool" where
  "override_prefix ov \<longleftrightarrow> (\<exists>ws. ov = ''@Override'' @ ws \<and> ws \<noteq> [] \<and> spaces ws)"

lemma lang_Rep1: "w \<in> lang (Rep 1 P) \<longleftrightarrow> w \<noteq> [] \<and> list_all P w"
  unfolding lang_Rep by (cases w) auto

lemma lang_Rep0: "w \<in> lang (Rep 0 P) \<longleftrightarrow> list_all P w"
  unfolding lang_Rep by simp

lemma lang_generic:
  "w \<in> lang (seqs [Str ''<'', Rep 1 (is_not CHR ''>''), Str ''>''])
   \<longleftrightarrow> (\<exists>a. w = ''<'' @ a @ ''>'' \<and> a \<noteq> [] \<and> list_all (is_not CHR ''>'') a)"
proof
  assume "w \<in> lang (seqs [Str ''<'', Rep 1 (is_not CHR ''>''), Str ''>''])"
  then obtain u1 u2 u3 u4 where "w = u1 @ u2 @ u3 @ u4" "u1 \<in> lang (Str ''<'')"
    "u2 \<in> lang (Rep 1 (is_not CHR ''>''))" "u3 \<in> lang (Str ''>'')" "u4 \<in> lang (seqs [])"
    by (elim lang_seqs_ConsE) blast
  then show "\<exists>a. w = ''<'' @ a @ ''>'' \<and> a \<noteq> [] \<and> list_all (is_not CHR ''>'') a"
    unfolding lang_Str lang_Rep1 lang_seqs_Nil by simp
next
  assume "\<exists>a. w = ''<'' @ a @ ''>'' \<and> a \<noteq> [] \<and> list_all (is_not CHR ''>'') a"
  then obtain a where a: "w = ''<'' @ a @ ''>'' @ []" "a \<noteq> []" "list_all (is_not CHR ''>'') a" by auto
  show "w \<in> lang (seqs [Str ''<'', Rep 1 (is_not CHR ''>''), Str ''>''])"
    unfolding a(1)
    by (intro lang_seqs_ConsI lang_seqs_NilI) (simp_all only: lang_Str lang_Rep1 a simp_thms)
qed

lemma lang_return_type:
  "w \<in> lang (seqs [Rep 1 is_word, Opt (seqs [Str ''<'', Rep 1 (is_not CHR ''>''), Str ''>'']), Rep 1 is_space])
   \<longleftrightarrow> return_type w"
proof
  assume "w \<in> lang (seqs [Rep 1 is_word, Opt (seqs [Str ''<'', Rep 1 (is_not CHR ''>''), Str ''>'']), Rep 1 is_space])"
  then obtain u1 u2 u3 u4 where "w = u1 @ u2 @ u3 @ u4" "u1 \<in> lang (Rep 1 is_word)"
    "u2 \<in> lang (Opt (seqs [Str ''<'', Rep 1 (is_not CHR ''>''), Str ''>'']))"
    "u3 \<in> lang (Rep 1 is_space)" "u4 \<in> lang (seqs [])"
    by (elim lang_seqs_ConsE) blast
  then have "w = u1 @ u2 @ u3 \<and> u1 \<noteq> [] \<and> list_all is_word u1 \<and>
        (u2 = [] \<or> (\<exists>a. u2 = ''<'' @ a @ ''>'' \<and> a \<noteq> [] \<and> list_all (is_not CHR ''>'') a)) \<and>
        u3 \<noteq> [] \<and> spaces u3"
    unfolding lang_Opt lang_generic lang_Rep1 lang_seqs_Nil spaces_def by simp
  then show "return_type w" unfolding return_type_def by blast
next
  assume "return_type w"
  then obtain tname targs ws where a: "w = tname @ targs @ ws @ []"
        "tname \<noteq> []" "list_all is_word tname"
        "targs = [] \<or> (\<exists>a. targs = ''<'' @ a @ ''>'' \<and> a \<noteq> [] \<and> list_all (is_not CHR ''>'') a)"
        "ws \<noteq> []" "spaces ws"
    unfolding return_type_def by auto
  have "targs \<in> lang (Opt (seqs [Str ''<'', Rep 1 (is_not CHR ''>''), Str ''>'']))"
    unfolding lang_Opt lang_generic using a(4) .
  then show "w \<in> lang (seqs [Rep 1 is_word, Opt (seqs [Str ''<'', Rep 1 (is_not CHR ''>''), Str ''>'']), Rep 1 is_space])"
    unfolding a(1) using a
    by (intro lang_seqs_ConsI lang_seqs_NilI) (simp_all only: lang_Rep1 spaces_def simp_thms)
qed

lemma lang_override:
  "w \<in> lang (seqs [Str ''@Override'', Rep 1 is_space]) \<longleftrightarrow> override_prefix w"
proof
  assume "w \<in> lang (seqs [Str ''@Override'', Rep 1 is_space])"
  then obtain u1 u2 u3 where "w = u1 @ u2 @ u3" "u1 \<in> lang (Str ''@Override'')"
    "u2 \<in> lang (Rep 1 is_space)" "u3 \<in> lang (seqs [])"
    by (elim lang_seqs_ConsE) blast
  then have "w = ''@Override'' @ u2 \<and> u2 \<noteq> [] \<and> spaces u2"
    unfolding lang_Str lang_Rep1 lang_seqs_Nil spaces_def by simp
  then show "override_prefix w" unfolding override_prefix_def by (rule exI)
next
  assume "override_prefix w"
  then obtain ws where a: "w = ''@Override'' @ ws @ []" "ws \<noteq> []" "spaces ws"
    unfolding override_prefix_def by auto
  show "w \<in> lang (seqs [Str ''@Override'', Rep 1 is_space])"
    unfolding a(1) using a
    by (intro lang_seqs_ConsI lang_seqs_NilI) (simp_all only: lang_Str lang_Rep1 spaces_def simp_thms)
qed

lemma list_all_is_not: "list_all (is_not d) w \<longleftrightarrow> d \<notin> set w"
  by (auto simp: list_all_iff is_not_def)

lemma lang_methodRe:
  "w \<in> lang (methodRe n) \<longleftrightarrow>
     (\<exists>ov modifier ws1 rtype ws2 params ws3.
        w = ov @ modifier @ ws1 @ rtype @ n @ ws2 @ ''('' @ params @ '')'' @ ws3 @ ''{'' \<and>
        (ov = [] \<or> override_prefix ov) \<and>
        (modifier = ''public'' \<or> modifier = ''protected'') \<and>
        ws1 \<noteq> [] \<and> spaces ws1 \<and>
        (rtype = [] \<or> return_type rtype) \<and>
        spaces ws2 \<and> CHR '')'' \<notin> set params \<and> spaces ws3)"
proof
  assume "w \<in> lang (methodRe n)"
  then obtain u1 u2 u3 u4 u5 u6 u7 u8 u9 u10 u11 u12 where
    "w = u1 @ u2 @ u3 @ u4 @ u5 @ u6 @ u7 @ u8 @ u9 @ u10 @ u11 @ u12"
    "u1 \<in> lang (Opt (seqs [Str ''@Override'', Rep 1 is_space]))"
    "u2 \<in> lang (Alt (Str ''public'') (Str ''protected''))"
    "u3 \<in> lang (Rep 1 is_space)"
    "u4 \<in> lang (Opt (seqs [Rep 1 is_word, Opt (seqs [Str ''<'', Rep 1 (is_not CHR ''>''), Str ''>'']), Rep 1 is_space]))"
    "u5 \<in> lang (Str n)"
    "u6 \<in> lang (Rep 0 is_space)"
    "u7 \<in> lang (Str ''('')"
    "u8 \<in> lang (Rep 0 (is_not CHR '')''))"
    "u9 \<in> lang (Str '')'')"
    "u10 \<in> lang (Rep 0 is_space)"
    "u11 \<in> lang (Str ''{'')"
    "u12 \<in> lang (seqs [])"
    unfolding methodRe_def by (elim lang_seqs_ConsE) blast
  then have "w = u1 @ u2 @ u3 @ u4 @ n @ u6 @ ''('' @ u8 @ '')'' @ u10 @ ''{'' \<and>
        (u1 = [] \<or> override_prefix u1) \<and>
        (u2 = ''public'' \<or> u2 = ''protected'') \<and>
        u3 \<noteq> [] \<and> spaces u3 \<and>
        (u4 = [] \<or> return_type u4) \<and>
        spaces u6 \<and> CHR '')'' \<notin> set u8 \<and> spaces u10"
    unfolding lang_Opt lang_Alt lang_override lang_return_type lang_Str lang_Rep1 lang_Rep0
      lang_seqs_Nil spaces_def list_all_is_not by simp
  then show "\<exists>ov modifier ws1 rtype ws2 params ws3.
        w = ov @ modifier @ ws1 @ rtype @ n @ ws2 @ ''('' @ params @ '')'' @ ws3 @ ''{'' \<and>
        (ov = [] \<or> override_prefix ov) \<and>
        (modifier = ''public'' \<or> modifier = ''protected'') \<and>
        ws1 \<noteq> [] \<and> spaces ws1 \<and>
        (rtype = [] \<or> return_type rtype) \<and>
        spaces ws2 \<and> CHR '')'' \<notin> set params \<and> spaces ws3"
    by blast
next
  assume "\<exists>ov modifier ws1 rtype ws2 params ws3.
        w = ov @ modifier @ ws1 @ rtype @ n @ ws2 @ ''('' @ params @ '')'' @ ws3 @ ''{'' \<and>
        (ov = [] \<or> override_prefix ov) \<and>
        (modifier = ''public'' \<or> modifier = ''protected'') \<and>
        ws1 \<noteq> [] \<and> spaces ws1 \<and>
        (rtype = [] \<or> return_type rtype) \<and>
        spaces ws2 \<and> CHR '')'' \<notin> set params \<and> spaces ws3"
  then obtain ov modifier ws1 rtype ws2 params ws3 where
    w0: "w = ov @ modifier @ ws1 @ rtype @ n @ ws2 @ ''('' @ params @ '')'' @ ws3 @ ''{''"
    and a: "ov = [] \<or> override_prefix ov"
        "modifier = ''public'' \<or> modifier = ''protected''"
        "ws1 \<noteq> []" "spaces ws1"
        "rtype = [] \<or> return_type rtype"
        "spaces ws2" "CHR '')'' \<notin> set params" "spaces ws3"
    by blast
  have w: "w = ov @ modifier @ ws1 @ rtype @ n @ ws2 @ ''('' @ params @ '')'' @ ws3 @ ''{'' @ []"
    using w0 by simp
  show "w \<in> lang (methodRe n)"
    unfolding w methodRe_def using a
    by (intro lang_seqs_ConsI lang_seqs_NilI)
       (simp_all only: lang_Opt lang_Alt lang_override lang_return_type lang_Str lang_Rep1 lang_Rep0
          spaces_def list_all_is_not simp_thms)
qed

lemma extractMethodBody_found:
  "extractMethodBody source n \<noteq> None \<longleftrightarrow> (\<exists>p w t. source = p @ w @ t \<and> w \<in> lang (methodRe n))"
proof -
  have "extractMethodBody source n \<noteq> None \<longleftrightarrow> js_match (methodRe n) source \<noteq> None"
    by (simp add: extractMethodBody_def Let_def split: option.splits)
  then show ?thesis unfolding js_match_None by blast
qed

text \<open>
  C5, as amended.  The locator finds a declaration of the name exactly when the source holds
  \<^verbatim>\<open>public\<close> or \<^verbatim>\<open>protected\<close>, white space, an optional return type, the name, a
  parenthesised parameter list and the opening brace.  The return type (with its generic
  arguments) and the \<^verbatim>\<open>@Override\<close> annotation may be left out; the access modifier may
  not.
\<close>

theorem extractMethodBody_modifier_required:
  "plain_name n \<longrightarrow>
   (extractMethodBody source n \<noteq> None \<longleftrightarrow>
     (\<exists>pre modifier ws1 rtype ws2 params ws3 rest.
        source = pre @ modifier @ ws1 @ rtype @ n @ ws2 @ ''('' @ params @ '')'' @ ws3 @ ''{'' @ rest \<and>
        (modifier = ''public'' \<or> modifier = ''protected'') \<and>
        ws1 \<noteq> [] \<and> spaces ws1 \<and>
        (rtype = [] \<or> return_type rtype) \<and>
        spaces ws2 \<and> CHR '')'' \<notin> set params \<and> spaces ws3))"
proof (intro impI iffI)
  assume "extractMethodBody source n \<noteq> None"
  then obtain p w t where s: "source = p @ w @ t" and w: "w \<in> lang (methodRe n)"
    unfolding extractMethodBody_found by blast
  from w obtain ov modifier ws1 rtype ws2 params ws3 where
    w': "w = ov @ modifier @ ws1 @ rtype @ n @ ws2 @ ''('' @ params @ '')'' @ ws3 @ ''{''"
    and a: "modifier = ''public'' \<or> modifier = ''protected''"
        "ws1 \<noteq> []" "spaces ws1"
        "rtype = [] \<or> return_type rtype"
        "spaces ws2" "CHR '')'' \<notin> set params" "spaces ws3"
    unfolding lang_methodRe by blast
  have "source = (p @ ov) @ modifier @ ws1 @ rtype @ n @ ws2 @ ''('' @ params @ '')'' @ ws3 @ ''{'' @ t"
    using s w' by simp
  then show "\<exists>pre modifier ws1 rtype ws2 params ws3 rest.
        source = pre @ modifier @ ws1 @ rtype @ n @ ws2 @ ''('' @ params @ '')'' @ ws3 @ ''{'' @ rest \<and>
        (modifier = ''public'' \<or> modifier = ''protected'') \<and>
        ws1 \<noteq> [] \<and> spaces ws1 \<and>
        (rtype = [] \<or> return_type rtype) \<and>
        spaces ws2 \<and> CHR '')'' \<notin> set params \<and> spaces ws3"
    using a by blast
next
  assume "\<exists>pre modifier ws1 rtype ws2 params ws3 rest.
        source = pre @ modifier @ ws1 @ rtype @ n @ ws2 @ ''('' @ params @ '')'' @ ws3 @ ''{'' @ rest \<and>
        (modifier = ''public'' \<or> modifier = ''protected'') \<and>
        ws1 \<noteq> [] \<and> spaces ws1 \<and>
        (rtype = [] \<or> return_type rtype) \<and>
        spaces ws2 \<and> CHR '')'' \<notin> set params \<and> spaces ws3"
  then obtain pre modifier ws1 rtype ws2 params ws3 rest where
    s: "source = pre @ modifier @ ws1 @ rtype @ n @ ws2 @ ''('' @ params @ '')'' @ ws3 @ ''{'' @ rest"
    and a: "modifier = ''public'' \<or> modifier = ''protected''"
        "ws1 \<noteq> []" "spaces ws1"
        "rtype = [] \<or> return_type rtype"
        "spaces ws2" "CHR '')'' \<notin> set params" "spaces ws3"
    by blast
  let ?w = "[] @ modifier @ ws1 @ rtype @ n @ ws2 @ ''('' @ params @ '')'' @ ws3 @ ''{''"
  have "?w \<in> lang (methodRe n)" unfolding lang_methodRe using a by blast
  moreover have "source = pre @ ?w @ rest" using s by simp
  ultimately show "extractMethodBody source n \<noteq> None" unfolding extractMethodBody_found by blast
qed

theorem extractMethodBody_modifier_required_witness:
  "plain_name ''getPanels'' \<and>
   extractMethodBody ''class Q { protected List<PanelDetails> getPanels() { return p; } }'' ''getPanels'' \<noteq> None \<and>
   extractMethodBody ''public getPanels(){}'' ''getPanels'' \<noteq> None"
proof -
  have n: "plain_name ''getPanels''" by code_simp
  have sp: "spaces '' ''" "spaces []" by (simp_all add: spaces_def, code_simp)
  have w: "list_all is_word ''List''" by code_simp
  have g: "list_all (is_not CHR ''>'') ''PanelDetails''" by code_simp
  have "''List<PanelDetails> '' = ''List'' @ ''<PanelDetails>'' @ '' '' \<and>
        ''List'' \<noteq> [] \<and> list_all is_word ''List'' \<and>
        (''<PanelDetails>'' = [] \<or>
         (\<exists>a. ''<PanelDetails>'' = ''<'' @ a @ ''>'' \<and> a \<noteq> [] \<and> list_all (is_not CHR ''>'') a)) \<and>
        '' '' \<noteq> [] \<and> spaces '' ''"
    using sp w g by (intro conjI disjI2 exI[of _ "''PanelDetails''"]) simp_all
  then have rt: "return_type ''List<PanelDetails> ''"
    unfolding return_type_def by blast
  have "''class Q { protected List<PanelDetails> getPanels() { return p; } }'' =
          ''class Q { '' @ ''protected'' @ '' '' @ ''List<PanelDetails> '' @ ''getPanels'' @ [] @ ''('' @ [] @ '')'' @ '' '' @ ''{'' @ '' return p; } }'' \<and>
        (''protected'' = ''public'' \<or> ''protected'' = ''protected'') \<and>
        '' '' \<noteq> [] \<and> spaces '' '' \<and>
        (''List<PanelDetails> '' = [] \<or> return_type ''List<PanelDetails> '') \<and>
        spaces [] \<and> CHR '')'' \<notin> set [] \<and> spaces '' ''"
    using sp rt by simp
  then have e1: "\<exists>pre modifier ws1 rtype ws2 params ws3 rest.
        ''class Q { protected List<PanelDetails> getPanels() { return p; } }'' =
          pre @ modifier @ ws1 @ rtype @ ''getPanels'' @ ws2 @ ''('' @ params @ '')'' @ ws3 @ ''{'' @ rest \<and>
        (modifier = ''public'' \<or> modifier = ''protected'') \<and>
        ws1 \<noteq> [] \<and> spaces ws1 \<and>
        (rtype = [] \<or> return_type rtype) \<and>
        spaces ws2 \<and> CHR '')'' \<notin> set params \<and> spaces ws3"
    by (intro exI)
  have "''public getPanels(){}'' =
          [] @ ''public'' @ '' '' @ [] @ ''getPanels'' @ [] @ ''('' @ [] @ '')'' @ [] @ ''{'' @ ''}'' \<and>
        (''public'' = ''public'' \<or> ''public'' = ''protected'') \<and>
        '' '' \<noteq> [] \<and> spaces '' '' \<and>
        ([] = [] \<or> return_type []) \<and>
        spaces [] \<and> CHR '')'' \<notin> set [] \<and> spaces []"
    using sp by simp
  then have e2: "\<exists>pre modifier ws1 rtype ws2 params ws3 rest.
        ''public getPanels(){}'' =
          pre @ modifier @ ws1 @ rtype @ ''getPanels'' @ ws2 @ ''('' @ params @ '')'' @ ws3 @ ''{'' @ rest \<and>
        (modifier = ''public'' \<or> modifier = ''protected'') \<and>
        ws1 \<noteq> [] \<and> spaces ws1 \<and>
        (rtype = [] \<or> return_type rtype) \<and>
        spaces ws2 \<and> CHR '')'' \<notin> set params \<and> spaces ws3"
    by (intro exI)
  have 1: "extractMethodBody ''class Q { protected List<PanelDetails> getPanels() { return p; } }'' ''getPanels'' \<noteq> None"
    by (rule extractMethodBody_modifier_required[THEN mp, OF n, THEN iffD2, OF e1])
  have 2: "extractMethodBody ''public getPanels(){}'' ''getPanels'' \<noteq> None"
    by (rule extractMethodBody_modifier_required[THEN mp, OF n, THEN iffD2, OF e2])
  show ?thesis using n 1 2 by (intro conjI)
qed

text \<open>C5 as stated fails: a declaration without an access modifier is not located.\<close>

theorem extractMethodBody_no_modifier_counterexample:
  "extractMethodBody ''class Q { List<PanelDetails> getPanels() { return p; } }'' ''getPanels'' = None"
  by code_simp


section \<open>Properties of the record assembler\<close>

lemma foldl_push: "foldl (\<lambda>acc v. acc @ f v) a xs = a @ concat (map f xs)"
  by (induction xs arbitrary: a) simp_all

lemma panel_steps_map_filter:
  "panel_steps stepData names = List.map_filter (map_get stepData) names"
proof -
  let ?f = "\<lambda>v. case map_get stepData v of None \<Rightarrow> [] | Some d \<Rightarrow> [d]"
  have "panel_steps stepData names = foldl (\<lambda>acc v. acc @ ?f v) [] names"
    unfolding panel_steps_def
    by (rule arg_cong[where f = "\<lambda>g. foldl g [] names"]) (auto simp: fun_eq_iff split: option.splits)
  also have "\<dots> = concat (map ?f names)" by (simp add: foldl_push)
  also have "\<dots> = List.map_filter (map_get stepData) names"
    by (induction names) (auto simp: List.map_filter_simps split: option.splits)
  finally show ?thesis .
qed

lemma buildSteps_map:
  "buildSteps panels stepData =
     map (\<lambda>p. \<lparr>panelName = pd_panelName p, steps = panel_steps stepData (stepVarNames p)\<rparr>) panels"
proof -
  have "buildSteps panels stepData =
      foldl (\<lambda>acc p. acc @ [\<lparr>panelName = pd_panelName p, steps = panel_steps stepData (stepVarNames p)\<rparr>]) [] panels"
    unfolding buildSteps_def ..
  also have "\<dots> = concat (map (\<lambda>p. [\<lparr>panelName = pd_panelName p, steps = panel_steps stepData (stepVarNames p)\<rparr>]) panels)"
    by (simp add: foldl_push)
  also have "\<dots> = map (\<lambda>p. \<lparr>panelName = pd_panelName p, steps = panel_steps stepData (stepVarNames p)\<rparr>) panels"
    by (induction panels) simp_all
  finally show ?thesis .
qed

text \<open>
  C7. Every panel grouping yields one panel, under its name and in order; its steps are the
  records of the referenced variables that the step table has, in the order of the
  references.  A reference the table lacks is skipped: the output is the same as if the
  reference were not written, so its siblings keep their order and content.
\<close>

theorem buildSteps_skips_dangling:
  "buildSteps panels stepData =
     map (\<lambda>p. \<lparr>panelName = pd_panelName p,
                steps = List.map_filter (map_get stepData) (stepVarNames p)\<rparr>) panels \<and>
   (map_get stepData v = None \<longrightarrow>
      buildSteps (ps @ \<lparr>pd_panelName = t, stepVarNames = xs @ [v] @ ys\<rparr> # qs) stepData =
      buildSteps (ps @ \<lparr>pd_panelName = t, stepVarNames = xs @ ys\<rparr> # qs) stepData)"
  by (simp add: buildSteps_map panel_steps_map_filter List.map_filter_def)

theorem buildSteps_skips_dangling_witness:
  "map_get [(''step1'', \<lparr>stepDescription = ''Talk'', worldpoint = \<lparr>wp_x = Num 1, wp_y = Num 2, wp_plane = Num 0\<rparr>\<rparr>)] ''missingStep'' = None \<and>
   buildSteps [\<lparr>pd_panelName = ''Starting off'', stepVarNames = [''step1'', ''missingStep'', ''step1'']\<rparr>]
      [(''step1'', \<lparr>stepDescription = ''Talk'', worldpoint = \<lparr>wp_x = Num 1, wp_y = Num 2, wp_plane = Num 0\<rparr>\<rparr>)] =
   [\<lparr>panelName = ''Starting off'',
     steps = [\<lparr>stepDescription = ''Talk'', worldpoint = \<lparr>wp_x = Num 1, wp_y = Num 2, wp_plane = Num 0\<rparr>\<rparr>,
              \<lparr>stepDescription = ''Talk'', worldpoint = \<lparr>wp_x = Num 1, wp_y = Num 2, wp_plane = Num 0\<rparr>\<rparr>]\<rparr>]"
proof -
  let ?d = "[(''step1'', \<lparr>stepDescription = ''Talk'', worldpoint = \<lparr>wp_x = Num 1, wp_y = Num 2, wp_plane = Num 0\<rparr>\<rparr>)]"
  have n: "map_get ?d ''missingStep'' = None" by (simp add: map_get_def)
  have "buildSteps ([] @ \<lparr>pd_panelName = ''Starting off'', stepVarNames = [''step1''] @ [''missingStep''] @ [''step1'']\<rparr> # []) ?d =
        buildSteps ([] @ \<lparr>pd_panelName = ''Starting off'', stepVarNames = [''step1''] @ [''step1'']\<rparr> # []) ?d"
    using buildSteps_skips_dangling[where stepData = ?d and v = "''missingStep''" and ps = "[]" and qs = "[]"
        and t = "''Starting off''" and xs = "[''step1'']" and ys = "[''step1'']", THEN conjunct2, THEN mp, OF n] .
  also have "\<dots> = [\<lparr>panelName = ''Starting off'',
     steps = [\<lparr>stepDescription = ''Talk'', worldpoint = \<lparr>wp_x = Num 1, wp_y = Num 2, wp_plane = Num 0\<rparr>\<rparr>,
              \<lparr>stepDescription = ''Talk'', worldpoint = \<lparr>wp_x = Num 1, wp_y = Num 2, wp_plane = Num 0\<rparr>\<rparr>]\<rparr>]"
    using buildSteps_skips_dangling[where stepData = ?d and panels = "[\<lparr>pd_panelName = ''Starting off'', stepVarNames = [''step1''] @ [''step1'']\<rparr>]", THEN conjunct1]
    by (simp add: List.map_filter_def map_get_def)
  finally show ?thesis using n by simp
qed


section \<open>Properties of the literal-string reconstructor\<close>

definition bs :: char where
  "bs = CHR 0x5C"

text \<open>
  The content of a quoted literal: every backslash is followed by a character and no quote
  stands outside such a pair.
\<close>

fun frag_ok :: "string \<Rightarrow> bool" where
  "frag_ok [] = True"
| "frag_ok [c] = (c \<noteq> bs \<and> c \<noteq> dq)"
| "frag_ok (c # d # ds) = (if c = bs then frag_ok ds else c \<noteq> dq \<and> frag_ok (d # ds))"

text \<open>The content with every backslash and the character after it left out.\<close>

fun drop_escapes :: "string \<Rightarrow> string" where
  "drop_escapes [] = []"
| "drop_escapes [c] = (if c = bs then [] else [c])"
| "drop_escapes (c # d # ds) = (if c = bs then drop_escapes ds else c # drop_escapes (d # ds))"

text \<open>
  The content as the specification words it, "a backslash consumes the following character
  verbatim": the backslash goes, the character after it stays.
\<close>

fun spec_resolve_escapes :: "string \<Rightarrow> string" where
  "spec_resolve_escapes [] = []"
| "spec_resolve_escapes [c] = (if c = bs then [] else [c])"
| "spec_resolve_escapes (c # d # ds) = (if c = bs then d # spec_resolve_escapes ds else c # spec_resolve_escapes (d # ds))"

text \<open>
  What may follow the last literal: anything but white space, \<^verbatim>\<open>+\<close>, white space and a
  quote.
\<close>

definition stops :: "string \<Rightarrow> bool" where
  "stops rest =
     (case dropWhile is_space rest of
        [] \<Rightarrow> True
      | c # cs \<Rightarrow> c \<noteq> CHR ''+'' \<or> (case dropWhile is_space cs of [] \<Rightarrow> True | d # _ \<Rightarrow> d \<noteq> dq))"

text \<open>The further literals, each after \<^verbatim>\<open>+\<close> with white space \<open>w1\<close> before and \<open>w2\<close> after it.\<close>

definition joined :: "(string \<times> string \<times> string) list \<Rightarrow> string" where
  "joined others = concat (map (\<lambda>(w1, w2, f). w1 @ ''+'' @ w2 @ [dq] @ f @ [dq]) others)"

lemma read_chars_fragment:
  "frag_ok f \<Longrightarrow>
   read_chars (p @ f @ dq # t) (length p) s = (s @ drop_escapes f, Suc (length p + length f))"
proof (induction f arbitrary: p s rule: frag_ok.induct)
  case 1
  show ?case by (subst read_chars.simps) (simp add: dq_def)
next
  case (2 c)
  then have c: "c \<noteq> CHR 0x5C" "c \<noteq> dq" by (simp_all add: bs_def)
  have "read_chars (p @ [c] @ dq # t) (length p) s = read_chars ((p @ [c]) @ [] @ dq # t) (length (p @ [c])) (s @ [c])"
    using c by (subst read_chars.simps) (simp add: nth_append)
  also have "\<dots> = ((s @ [c]) @ [], Suc (length (p @ [c]) + length ([]::string)))"
    by (subst read_chars.simps) (simp add: nth_append dq_def)
  finally show ?case using c by (simp add: bs_def)
next
  case (3 c d ds)
  show ?case
  proof (cases "c = bs")
    case True
    then have ok: "frag_ok ds" using 3 by simp
    have "read_chars (p @ (c # d # ds) @ dq # t) (length p) s
          = read_chars ((p @ [c, d]) @ ds @ dq # t) (length (p @ [c, d])) s"
      using True by (subst read_chars.simps) (simp add: nth_append bs_def)
    also have "\<dots> = (s @ drop_escapes ds, Suc (length (p @ [c, d]) + length ds))"
      using "3.IH"(1)[OF True ok] .
    finally show ?thesis using True by simp
  next
    case False
    then have ok: "c \<noteq> dq" "frag_ok (d # ds)" using 3 by simp_all
    have "read_chars (p @ (c # d # ds) @ dq # t) (length p) s
          = read_chars ((p @ [c]) @ (d # ds) @ dq # t) (length (p @ [c])) (s @ [c])"
      using False ok(1) by (subst read_chars.simps) (simp add: nth_append bs_def)
    also have "\<dots> = ((s @ [c]) @ drop_escapes (d # ds), Suc (length (p @ [c]) + length (d # ds)))"
      using "3.IH"(2)[OF False ok(2)] .
    finally show ?thesis using False by simp
  qed
qed

lemma skip_spaces_takeWhile:
  "skip_spaces (p @ t) (length p) = length p + length (takeWhile is_space t)"
proof (induction t arbitrary: p)
  case Nil
  show ?case by (subst skip_spaces.simps) simp
next
  case (Cons c t)
  show ?case
  proof (cases "is_space c")
    case True
    have "skip_spaces (p @ c # t) (length p) = skip_spaces ((p @ [c]) @ t) (length (p @ [c]))"
      using True by (subst skip_spaces.simps) (simp add: nth_append)
    also have "\<dots> = length (p @ [c]) + length (takeWhile is_space t)" by (rule Cons.IH)
    finally show ?thesis using True by simp
  next
    case False
    then show ?thesis by (subst skip_spaces.simps) (simp add: nth_append)
  qed
qed

lemma char_at_append: "char_at (p @ t) (length p + k) = char_at t k"
  by (simp add: char_at_def nth_append)

lemma char_at_drop: "char_at t k = (case drop k t of [] \<Rightarrow> None | c # _ \<Rightarrow> Some c)"
proof (cases "k < length t")
  case True
  then have "drop k t = t ! k # drop (Suc k) t" by (simp add: Cons_nth_drop_Suc)
  then show ?thesis using True by (simp add: char_at_def)
next
  case False
  then show ?thesis by (simp add: char_at_def)
qed

lemma char_at_dropWhile:
  "char_at t (length (takeWhile P t)) = (case dropWhile P t of [] \<Rightarrow> None | c # _ \<Rightarrow> Some c)"
  unfolding char_at_drop dropWhile_eq_drop ..

lemma not_space_plus: "\<not> is_space CHR ''+''"
  by (simp add: is_space_def code_def)

lemma not_space_dq: "\<not> is_space dq"
  by (simp add: is_space_def code_def dq_def)

lemma takeWhile_spaces_then:
  "list_all is_space w \<Longrightarrow> \<not> is_space c \<Longrightarrow> takeWhile is_space (w @ c # t) = w"
  by (induction w) simp_all

text \<open>One round of the outer loop, from the opening quote of a fragment.\<close>

lemma read_parts_round:
  assumes f: "frag_ok f"
  shows "read_parts (p @ dq # f @ dq # t) (length p) parts =
     (let parts' = parts @ [drop_escapes f];
          body = p @ dq # f @ dq # t;
          i2 = length p + length f + 2 + length (takeWhile is_space t)
      in if char_at body i2 \<noteq> Some CHR ''+'' then parts'
         else (let i3 = skip_spaces body (i2 + 1)
               in if char_at body i3 \<noteq> Some dq then parts' else read_parts body i3 parts'))"
proof -
  let ?body = "p @ dq # f @ dq # t"
  have rc: "read_chars ?body (Suc (length p)) [] = (drop_escapes f, Suc (Suc (length p + length f)))"
    using read_chars_fragment[OF f, of "p @ [dq]" t "[]"] by simp
  have sk: "skip_spaces ?body (Suc (Suc (length p + length f))) =
      Suc (Suc (length p + length f + length (takeWhile is_space t)))"
    using skip_spaces_takeWhile[of "p @ dq # f @ [dq]" t] by simp
  show ?thesis
    by (subst read_parts.simps) (simp add: rc sk Let_def)
qed

lemma char_at_after_spaces:
  "char_at (q @ t) (length q + length (takeWhile is_space t)) =
     (case dropWhile is_space t of [] \<Rightarrow> None | c # _ \<Rightarrow> Some c)"
  unfolding char_at_append by (rule char_at_dropWhile)

lemma head_differs:
  "(case xs of [] \<Rightarrow> True | d # _ \<Rightarrow> d \<noteq> q) \<Longrightarrow>
   (case xs of [] \<Rightarrow> None | d # _ \<Rightarrow> Some d) \<noteq> Some q"
  by (cases xs) simp_all

lemma read_parts_last:
  assumes f: "frag_ok f" and st: "stops rest"
  shows "read_parts (p @ dq # f @ dq # rest) (length p) parts = parts @ [drop_escapes f]"
proof -
  let ?body = "p @ dq # f @ dq # rest"
  let ?q = "p @ dq # f @ [dq]"
  let ?i2 = "Suc (Suc (length p + length f + length (takeWhile is_space rest)))"
  have body: "?body = ?q @ rest" by simp
  have i2: "?i2 = length ?q + length (takeWhile is_space rest)" by simp
  have c2: "char_at ?body ?i2 = (case dropWhile is_space rest of [] \<Rightarrow> None | c # _ \<Rightarrow> Some c)"
    unfolding body i2 by (rule char_at_after_spaces)
  show ?thesis
  proof (cases "dropWhile is_space rest")
    case Nil
    have "char_at ?body ?i2 = None" unfolding c2 Nil by simp
    then have "char_at ?body ?i2 \<noteq> Some CHR ''+''" by simp
    then show ?thesis by (subst read_parts_round[OF f]) (simp add: Let_def)
  next
    case (Cons c cs)
    show ?thesis
    proof (cases "c = CHR ''+''")
      case False
      have "char_at ?body ?i2 = Some c" unfolding c2 Cons by simp
      then have "char_at ?body ?i2 \<noteq> Some CHR ''+''" using False by simp
      then show ?thesis by (subst read_parts_round[OF f]) (simp add: Let_def)
    next
      case True
      let ?q3 = "?q @ takeWhile is_space rest @ [c]"
      have rest: "rest = takeWhile is_space rest @ c # cs" using Cons
        by (metis takeWhile_dropWhile_id)
      have body3: "?body = ?q3 @ cs" using rest by (metis body append.assoc append_Cons append_Nil)
      have idx: "Suc ?i2 = length ?q3" by simp
      have "skip_spaces ?body (Suc ?i2) = skip_spaces (?q3 @ cs) (length ?q3)"
        unfolding idx using body3 by simp
      also have "\<dots> = length ?q3 + length (takeWhile is_space cs)" by (rule skip_spaces_takeWhile)
      finally have i3: "skip_spaces ?body (Suc ?i2) = length ?q3 + length (takeWhile is_space cs)" .
      have "char_at ?body (length ?q3 + length (takeWhile is_space cs)) =
          (case dropWhile is_space cs of [] \<Rightarrow> None | d # _ \<Rightarrow> Some d)"
        unfolding body3 by (rule char_at_after_spaces)
      moreover have "(case dropWhile is_space cs of [] \<Rightarrow> None | d # _ \<Rightarrow> Some d) \<noteq> Some dq"
      proof -
        have "c \<noteq> CHR ''+'' \<or> (case dropWhile is_space cs of [] \<Rightarrow> True | d # _ \<Rightarrow> d \<noteq> dq)"
          using st unfolding stops_def Cons by simp
        then have "case dropWhile is_space cs of [] \<Rightarrow> True | d # _ \<Rightarrow> d \<noteq> dq"
          using True by simp
        then show ?thesis by (rule head_differs)
      qed
      ultimately have "char_at ?body (skip_spaces ?body (Suc ?i2)) \<noteq> Some dq" using i3 by simp
      then show ?thesis by (subst read_parts_round[OF f]) (simp add: Let_def)
    qed
  qed
qed

lemma read_parts_next:
  assumes f: "frag_ok f" and w1: "list_all is_space w1" and w2: "list_all is_space w2"
  shows "read_parts (p @ dq # f @ dq # w1 @ CHR ''+'' # w2 @ dq # t) (length p) parts =
         read_parts ((p @ dq # f @ dq # w1 @ CHR ''+'' # w2) @ dq # t)
           (length (p @ dq # f @ dq # w1 @ CHR ''+'' # w2)) (parts @ [drop_escapes f])"
proof -
  let ?rest = "w1 @ CHR ''+'' # w2 @ dq # t"
  let ?body = "p @ dq # f @ dq # ?rest"
  let ?q = "p @ dq # f @ [dq]"
  have tw: "takeWhile is_space ?rest = w1" using w1 not_space_plus by (rule takeWhile_spaces_then)
  have dw: "dropWhile is_space ?rest = CHR ''+'' # w2 @ dq # t"
    using tw by (metis append_same_eq same_append_eq takeWhile_dropWhile_id)
  let ?i2 = "Suc (Suc (length p + length f + length (takeWhile is_space ?rest)))"
  have body: "?body = ?q @ ?rest" by simp
  have i2: "?i2 = length ?q + length (takeWhile is_space ?rest)" by simp
  have "char_at ?body ?i2 = (case dropWhile is_space ?rest of [] \<Rightarrow> None | c # _ \<Rightarrow> Some c)"
    unfolding body i2 by (rule char_at_after_spaces)
  then have c2: "char_at ?body ?i2 = Some CHR ''+''" using dw by simp
  let ?q3 = "?q @ w1 @ [CHR ''+'']"
  have body3: "?body = ?q3 @ (w2 @ dq # t)" by simp
  have tw2: "takeWhile is_space (w2 @ dq # t) = w2" using w2 not_space_dq by (rule takeWhile_spaces_then)
  have dw2: "dropWhile is_space (w2 @ dq # t) = dq # t"
    using tw2 by (metis same_append_eq takeWhile_dropWhile_id)
  have idx: "Suc ?i2 = length ?q3" using tw by simp
  have "skip_spaces ?body (Suc ?i2) = skip_spaces (?q3 @ (w2 @ dq # t)) (length ?q3)"
    unfolding idx by simp
  also have "\<dots> = length ?q3 + length (takeWhile is_space (w2 @ dq # t))"
    by (rule skip_spaces_takeWhile)
  finally have i3: "skip_spaces ?body (Suc ?i2) = length ?q3 + length (takeWhile is_space (w2 @ dq # t))" .
  have "char_at ?body (length ?q3 + length (takeWhile is_space (w2 @ dq # t))) =
          (case dropWhile is_space (w2 @ dq # t) of [] \<Rightarrow> None | d # _ \<Rightarrow> Some d)"
    unfolding body3 by (rule char_at_after_spaces)
  then have c3: "char_at ?body (skip_spaces ?body (Suc ?i2)) = Some dq" using i3 dw2 by simp
  have i3': "skip_spaces ?body (Suc ?i2) = length (p @ dq # f @ dq # w1 @ CHR ''+'' # w2)"
    using i3 tw2 by simp
  have "read_parts ?body (length p) parts = read_parts ?body (skip_spaces ?body (Suc ?i2)) (parts @ [drop_escapes f])"
    using c2 c3 by (subst read_parts_round[OF f]) (simp add: Let_def)
  then show ?thesis unfolding i3' by simp
qed

lemma read_parts_fragments:
  assumes "frag_ok f0"
    and "\<forall>(w1, w2, f) \<in> set others. list_all is_space w1 \<and> list_all is_space w2 \<and> frag_ok f"
    and "stops rest"
  shows "read_parts (p @ dq # f0 @ dq # joined others @ rest) (length p) parts =
         parts @ map drop_escapes (f0 # map (\<lambda>(w1, w2, f). f) others)"
  using assms
proof (induction others arbitrary: p f0 parts)
  case Nil
  then show ?case using read_parts_last[of f0 rest p parts] by (simp add: joined_def)
next
  case (Cons x others)
  obtain w1 w2 f where x: "x = (w1, w2, f)" by (cases x)
  have ok: "list_all is_space w1" "list_all is_space w2" "frag_ok f"
    and rest_ok: "\<forall>(w1, w2, f) \<in> set others. list_all is_space w1 \<and> list_all is_space w2 \<and> frag_ok f"
    using Cons.prems(2) x by auto
  have j: "joined (x # others) @ rest = w1 @ CHR ''+'' # w2 @ dq # f @ dq # joined others @ rest"
    by (simp add: joined_def x)
  have "read_parts (p @ dq # f0 @ dq # joined (x # others) @ rest) (length p) parts =
        read_parts ((p @ dq # f0 @ dq # w1 @ CHR ''+'' # w2) @ dq # f @ dq # joined others @ rest)
           (length (p @ dq # f0 @ dq # w1 @ CHR ''+'' # w2)) (parts @ [drop_escapes f0])"
    unfolding j by (rule read_parts_next[OF Cons.prems(1) ok(1,2)])
  also have "\<dots> = (parts @ [drop_escapes f0]) @ map drop_escapes (f # map (\<lambda>(w1, w2, f). f) others)"
    by (rule Cons.IH[OF ok(3) rest_ok Cons.prems(3)])
  finally show ?case by (simp add: x)
qed

lemma drop_escapes_plain: "bs \<notin> set f \<Longrightarrow> drop_escapes f = f"
  by (induction f rule: drop_escapes.induct) auto

text \<open>
  C3, as amended.  Started at the opening quote of the first of one or more quoted literals
  joined by \<^verbatim>\<open>+\<close>, with any white space around the \<^verbatim>\<open>+\<close>, the reconstructor returns the
  contents of the literals in order with nothing between them, where every escape
  sequence (a backslash and the character after it) is left out of the result; a literal
  without a backslash is returned as it is.  The white space has no part in the result.
\<close>

theorem readConcatenatedString_fragments:
  "(frag_ok f \<and>
    (\<forall>(w1, w2, f') \<in> set others. list_all is_space w1 \<and> list_all is_space w2 \<and> frag_ok f') \<and>
    stops rest \<longrightarrow>
    readConcatenatedString (pre @ [dq] @ f @ [dq] @ joined others @ rest) (length pre) =
      concat (map drop_escapes (f # map (\<lambda>(w1, w2, f'). f') others))) \<and>
   (bs \<notin> set g \<longrightarrow> drop_escapes g = g)"
proof (intro conjI impI)
  assume h: "frag_ok f \<and>
    (\<forall>(w1, w2, f') \<in> set others. list_all is_space w1 \<and> list_all is_space w2 \<and> frag_ok f') \<and>
    stops rest"
  have "read_parts (pre @ dq # f @ dq # joined others @ rest) (length pre) [] =
        [] @ map drop_escapes (f # map (\<lambda>(w1, w2, f'). f') others)"
    using h by (intro read_parts_fragments) blast+
  then show "readConcatenatedString (pre @ [dq] @ f @ [dq] @ joined others @ rest) (length pre) =
      concat (map drop_escapes (f # map (\<lambda>(w1, w2, f'). f') others))"
    by (simp add: readConcatenatedString_def)
next
  assume "bs \<notin> set g"
  then show "drop_escapes g = g" by (rule drop_escapes_plain)
qed

theorem readConcatenatedString_fragments_witness:
  "frag_ok ''Talk to '' \<and> frag_ok (''the '' @ [bs] @ ''\"chef'' @ [bs] @ ''\".'') \<and> stops '');'' \<and>
   readConcatenatedString (''xx\"Talk to \" +   \"the '' @ [bs] @ ''\"chef'' @ [bs] @ ''\".\");'') 2 = ''Talk to the chef.'' \<and>
   drop_escapes ''Talk to '' = ''Talk to ''"
proof -
  have f0: "frag_ok ''Talk to ''" by code_simp
  have f1: "frag_ok (''the '' @ [bs] @ ''\"chef'' @ [bs] @ ''\".'')" by code_simp
  have st: "stops '');''" by code_simp
  have sp: "list_all is_space '' ''" "list_all is_space ''   ''" by code_simp+
  have nb: "bs \<notin> set ''Talk to ''" by code_simp
  have hyp: "frag_ok ''Talk to '' \<and>
    (\<forall>(w1, w2, f) \<in> set [('' '', ''   '', ''the '' @ [bs] @ ''\"chef'' @ [bs] @ ''\".'')].
        list_all is_space w1 \<and> list_all is_space w2 \<and> frag_ok f) \<and>
    stops '');''"
    using f0 f1 st sp by simp
  note inst = readConcatenatedString_fragments[where f = "''Talk to ''"
      and others = "[('' '', ''   '', ''the '' @ [bs] @ ''\"chef'' @ [bs] @ ''\".'')]"
      and rest = "'');''" and pre = "''xx''" and g = "''Talk to ''"]
  have r: "readConcatenatedString (''xx'' @ [dq] @ ''Talk to '' @ [dq] @
          joined [('' '', ''   '', ''the '' @ [bs] @ ''\"chef'' @ [bs] @ ''\".'')] @ '');'') (length ''xx'') =
        concat (map drop_escapes (''Talk to '' # map (\<lambda>(w1, w2, f). f) [('' '', ''   '', ''the '' @ [bs] @ ''\"chef'' @ [bs] @ ''\".'')]))"
    using inst[THEN conjunct1, THEN mp, OF hyp] .
  have d: "drop_escapes ''Talk to '' = ''Talk to ''" using inst[THEN conjunct2, THEN mp, OF nb] .
  have e: "concat (map drop_escapes (''Talk to '' # map (\<lambda>(w1, w2, f). f) [('' '', ''   '', ''the '' @ [bs] @ ''\"chef'' @ [bs] @ ''\".'')])) = ''Talk to the chef.''"
    by code_simp
  have b: "''xx'' @ [dq] @ ''Talk to '' @ [dq] @
          joined [('' '', ''   '', ''the '' @ [bs] @ ''\"chef'' @ [bs] @ ''\".'')] @ '');'' =
        ''xx\"Talk to \" +   \"the '' @ [bs] @ ''\"chef'' @ [bs] @ ''\".\");''"
    by (simp add: joined_def dq_def)
  have "readConcatenatedString (''xx\"Talk to \" +   \"the '' @ [bs] @ ''\"chef'' @ [bs] @ ''\".\");'') 2 = ''Talk to the chef.''"
    using r unfolding e b by (simp add: numeral_2_eq_2)
  then show ?thesis using f0 f1 st d by (intro conjI)
qed

text \<open>
  C3 as stated fails: the literal \<^verbatim>\<open>"a\"b"\<close> yields \<^verbatim>\<open>ab\<close>, not the content with the escape
  resolved.
\<close>

theorem readConcatenatedString_escape_counterexample:
  "frag_ok (''a'' @ [bs] @ ''\"b'') \<and>
   readConcatenatedString (''\"a'' @ [bs] @ ''\"b\"'') 0 = ''ab'' \<and>
   spec_resolve_escapes (''a'' @ [bs] @ ''\"b'') = ''a\"b''"
  by code_simp


section \<open>Properties of the quest-prerequisite extraction\<close>

text \<open>The display names of the quest references of a body, in source order.\<close>

definition quest_refs :: "string \<Rightarrow> string list" where
  "quest_refs body = map (\<lambda>m. questDisplayName (grp_str m 1)) (exec_all questRequirementRe 0 body)"

text \<open>A list with only the first occurrence of every element kept.\<close>

definition first_seen :: "'a list \<Rightarrow> 'a list" where
  "first_seen xs = rev (remdups (rev xs))"

lemma first_seen_snoc:
  "first_seen (xs @ [x]) = (if x \<in> set xs then first_seen xs else first_seen xs @ [x])"
  by (simp add: first_seen_def)

lemma set_first_seen: "set (first_seen xs) = set xs"
  by (simp add: first_seen_def)

lemma distinct_first_seen: "distinct (first_seen xs)"
  by (simp add: first_seen_def)

lemma foldl_push_new: "foldl push_new [] xs = first_seen xs"
proof (induction xs rule: rev_induct)
  case Nil
  show ?case by (simp add: first_seen_def)
next
  case (snoc x xs)
  then show ?case by (simp add: first_seen_snoc push_new_def set_first_seen)
qed

lemma first_seen_append:
  "first_seen (xs @ ys) = first_seen xs @ first_seen (filter (\<lambda>y. y \<notin> set xs) ys)"
proof (induction ys rule: rev_induct)
  case Nil
  show ?case by (simp add: first_seen_def)
next
  case (snoc y ys)
  have "first_seen (xs @ ys @ [y]) = first_seen ((xs @ ys) @ [y])" by simp
  also have "\<dots> = (if y \<in> set (xs @ ys) then first_seen (xs @ ys) else first_seen (xs @ ys) @ [y])"
    by (rule first_seen_snoc)
  finally show ?case using snoc by (auto simp: first_seen_snoc)
qed

lemma distinct_count_one: "distinct xs \<Longrightarrow> x \<in> set xs \<Longrightarrow> count_list xs x = 1"
  by (induction xs) auto

lemma questRequirements_eq:
  "questRequirements (parseGeneralRequirements java) =
     (case extractMethodBody java ''getGeneralRequirements'' of
        None \<Rightarrow> []
      | Some body \<Rightarrow> first_seen (quest_refs body))"
proof (cases "extractMethodBody java ''getGeneralRequirements''")
  case None
  then show ?thesis by (simp add: parseGeneralRequirements_def)
next
  case (Some body)
  show ?thesis
  proof (cases "body = []")
    case True
    have "exec_all questRequirementRe 0 [] = []"
      by (subst exec_all.simps) (simp add: match_here_def questRequirementRe_def seqs_def)
    then show ?thesis using Some True
      by (simp add: parseGeneralRequirements_def quest_refs_def first_seen_def)
  next
    case False
    have "foldl (\<lambda>acc m. push_new acc (questDisplayName (grp_str m 1))) [] (exec_all questRequirementRe 0 body)
          = foldl push_new [] (quest_refs body)"
      by (simp add: quest_refs_def foldl_map)
    then show ?thesis using Some False
      by (simp add: parseGeneralRequirements_def foldl_push_new)
  qed
qed

text \<open>
  C9. The quest requirements of a source are the display names of its quest references
  with only the first occurrence of each kept: the list has no duplicate, it has every
  referenced name exactly once, and a name first referenced after the references \<open>xs\<close>
  stands right after the names first seen in \<open>xs\<close>.  Referencing a name again changes
  nothing.
\<close>

theorem questRequirements_first_seen:
  "extractMethodBody java ''getGeneralRequirements'' = Some body \<longrightarrow>
   distinct (questRequirements (parseGeneralRequirements java)) \<and>
   set (questRequirements (parseGeneralRequirements java)) = set (quest_refs body) \<and>
   (\<forall>n \<in> set (quest_refs body). count_list (questRequirements (parseGeneralRequirements java)) n = 1) \<and>
   questRequirements (parseGeneralRequirements java) = first_seen (quest_refs body) \<and>
   (\<forall>xs n ys. quest_refs body = xs @ n # ys \<and> n \<notin> set xs \<longrightarrow>
      questRequirements (parseGeneralRequirements java) =
        first_seen xs @ n # first_seen (filter (\<lambda>y. y \<notin> set xs \<and> y \<noteq> n) ys))"
proof (intro impI)
  assume b: "extractMethodBody java ''getGeneralRequirements'' = Some body"
  have eq: "questRequirements (parseGeneralRequirements java) = first_seen (quest_refs body)"
    using b by (simp add: questRequirements_eq)
  have pos: "first_seen (xs @ n # ys) = first_seen xs @ n # first_seen (filter (\<lambda>y. y \<notin> set xs \<and> y \<noteq> n) ys)"
    if "n \<notin> set xs" for xs ys and n :: string
  proof -
    have "first_seen (xs @ n # ys) = first_seen ((xs @ [n]) @ ys)" by simp
    also have "\<dots> = first_seen (xs @ [n]) @ first_seen (filter (\<lambda>y. y \<notin> set (xs @ [n])) ys)"
      by (rule first_seen_append)
    also have "first_seen (xs @ [n]) = first_seen xs @ [n]" using that by (simp add: first_seen_snoc)
    finally show ?thesis by (simp add: conj_commute)
  qed
  show "distinct (questRequirements (parseGeneralRequirements java)) \<and>
   set (questRequirements (parseGeneralRequirements java)) = set (quest_refs body) \<and>
   (\<forall>n \<in> set (quest_refs body). count_list (questRequirements (parseGeneralRequirements java)) n = 1) \<and>
   questRequirements (parseGeneralRequirements java) = first_seen (quest_refs body) \<and>
   (\<forall>xs n ys. quest_refs body = xs @ n # ys \<and> n \<notin> set xs \<longrightarrow>
      questRequirements (parseGeneralRequirements java) =
        first_seen xs @ n # first_seen (filter (\<lambda>y. y \<notin> set xs \<and> y \<noteq> n) ys))"
    unfolding eq
    using pos by (auto simp: distinct_first_seen set_first_seen distinct_count_one)
qed

theorem questRequirements_first_seen_witness:
  "extractMethodBody ''public L getGeneralRequirements() { QuestRequirement(QuestHelperQuest.A_B); QuestRequirement(QuestHelperQuest.C); QuestRequirement(QuestHelperQuest.A_B) }'' ''getGeneralRequirements''
     = Some '' QuestRequirement(QuestHelperQuest.A_B); QuestRequirement(QuestHelperQuest.C); QuestRequirement(QuestHelperQuest.A_B) '' \<and>
   quest_refs '' QuestRequirement(QuestHelperQuest.A_B); QuestRequirement(QuestHelperQuest.C); QuestRequirement(QuestHelperQuest.A_B) '' = [''A B'', ''C'', ''A B''] \<and>
   questRequirements (parseGeneralRequirements ''public L getGeneralRequirements() { QuestRequirement(QuestHelperQuest.A_B); QuestRequirement(QuestHelperQuest.C); QuestRequirement(QuestHelperQuest.A_B) }'') = [''A B'', ''C'']"
proof -
  let ?java = "''public L getGeneralRequirements() { QuestRequirement(QuestHelperQuest.A_B); QuestRequirement(QuestHelperQuest.C); QuestRequirement(QuestHelperQuest.A_B) }''"
  let ?body = "'' QuestRequirement(QuestHelperQuest.A_B); QuestRequirement(QuestHelperQuest.C); QuestRequirement(QuestHelperQuest.A_B) ''"
  have b: "extractMethodBody ?java ''getGeneralRequirements'' = Some ?body" by code_simp
  have r: "quest_refs ?body = [''A B'', ''C'', ''A B'']" by code_simp
  have "questRequirements (parseGeneralRequirements ?java) = first_seen (quest_refs ?body)"
    using questRequirements_first_seen[where java = ?java and body = ?body, THEN mp, OF b] by blast
  also have "\<dots> = [''A B'', ''C'']" unfolding r by (simp add: first_seen_def)
  finally show ?thesis using b r by (intro conjI)
qed

section \<open>Properties of the symbolic reference resolver\<close>

text \<open>
  The truthy entries of the two maps: the non-empty display string of a name, and the
  non-empty base variable it aliases.
\<close>

definition direct_of :: "(string, string) jsmap \<Rightarrow> string \<Rightarrow> string option" where
  "direct_of displayByVar nm =
     (case map_get displayByVar nm of None \<Rightarrow> None | Some d \<Rightarrow> if d \<noteq> [] then Some d else None)"

definition target_of :: "(string, string) jsmap \<Rightarrow> string \<Rightarrow> string option" where
  "target_of alias nm =
     (case map_get alias nm of None \<Rightarrow> None | Some t \<Rightarrow> if t \<noteq> [] then Some t else None)"

text \<open>The alias graph, and a chain of aliases from a name through \<open>path\<close> to \<open>final\<close>,
  none of whose names before \<open>final\<close> has a display string.\<close>

definition alias_graph :: "(string, string) jsmap \<Rightarrow> (string \<times> string) set" where
  "alias_graph alias = {(a, b). target_of alias a = Some b}"

fun follows :: "(string, string) jsmap \<Rightarrow> (string, string) jsmap \<Rightarrow> string \<Rightarrow> string list \<Rightarrow> string \<Rightarrow> bool" where
  "follows displayByVar alias nm [] final = (nm = final)"
| "follows displayByVar alias nm (t # ts) final =
     (direct_of displayByVar nm = None \<and> target_of alias nm = Some t \<and>
      follows displayByVar alias t ts final)"

lemma resolve_unfold:
  "resolve dv al nm =
     (case direct_of dv nm of
        Some d \<Rightarrow> Some (Some d)
      | None \<Rightarrow> (case target_of al nm of Some t \<Rightarrow> resolve dv al t | None \<Rightarrow> Some None))"
  by (subst resolve.simps) (simp add: direct_of_def target_of_def split: option.splits)

lemma resolve_follows:
  "follows dv al nm path final \<Longrightarrow> resolve dv al nm = resolve dv al final"
proof (induction path arbitrary: nm)
  case Nil
  then show ?case by simp
next
  case (Cons t ts)
  then have "resolve dv al nm = resolve dv al t" by (subst resolve_unfold) simp
  then show ?case using Cons by simp
qed

lemma alias_graph_subset: "alias_graph al \<subseteq> set al"
  by (auto simp: alias_graph_def target_of_def map_get_def split: option.splits if_splits dest: map_of_SomeD)

lemma finite_alias_graph: "finite (alias_graph al)"
  using alias_graph_subset by (rule finite_subset) simp

lemma acyclic_by_rank:
  fixes rank :: "string \<Rightarrow> nat"
  assumes "\<forall>(a, b) \<in> set al. rank a < rank b"
  shows "acyclic (alias_graph al)"
proof -
  have "alias_graph al \<subseteq> measure rank"
  proof
    fix p assume "p \<in> alias_graph al"
    then have "p \<in> set al" using alias_graph_subset[of al] by blast
    then have "case p of (a, b) \<Rightarrow> rank a < rank b" using assms by blast
    then show "p \<in> measure rank" by (cases p) simp
  qed
  moreover have "acyclic (measure rank)" by (rule wf_acyclic) simp
  ultimately show ?thesis by (rule acyclic_subset[rotated])
qed

lemma resolve_returns:
  assumes "acyclic (alias_graph al)"
  shows "\<exists>y. resolve dv al nm = Some y"
proof -
  have "wf ((alias_graph al)\<inverse>)"
    using finite_alias_graph assms by (rule finite_acyclic_wf_converse)
  then show ?thesis
  proof (induction nm rule: wf_induct_rule)
    case (less nm)
    show ?case
    proof (cases "direct_of dv nm")
      case (Some d)
      then show ?thesis by (subst resolve_unfold) simp
    next
      case None
      show ?thesis
      proof (cases "target_of al nm")
        case n: None
        then show ?thesis using None by (subst resolve_unfold) simp
      next
        case (Some t)
        then have "(t, nm) \<in> (alias_graph al)\<inverse>" by (simp add: alias_graph_def)
        from less[OF this] obtain y where "resolve dv al t = Some y" ..
        then show ?thesis using None Some by (subst resolve_unfold) simp
      qed
    qed
  qed
qed

lemma resolve_nonempty: "resolve dv al nm = Some (Some d) \<Longrightarrow> d \<noteq> []"
proof (induction dv al nm "Some d" rule: resolve.raw_induct[rotated 1, consumes 1])
  case (1 resolve' dv al nm)
  then show ?case
    by (auto split: option.splits if_splits)
qed

lemma resolve_none_direct: "resolve dv al nm = Some None \<Longrightarrow> direct_of dv nm = None"
  by (subst (asm) resolve_unfold) (simp split: option.splits)

lemma map_get_map_set: "map_get (map_set m k v) k' = (if k' = k then Some v else map_get m k')"
  by (simp add: map_get_def map_set_def update_conv')

lemma resolve_keys_result:
  "resolve_keys dv al ks res = Some result \<Longrightarrow>
   map_get result nm =
     (if nm \<in> set ks then (case resolve dv al nm of Some (Some d) \<Rightarrow> Some d | _ \<Rightarrow> map_get res nm)
      else map_get res nm)"
proof (induction ks arbitrary: res)
  case Nil
  then show ?case by simp
next
  case (Cons k ks)
  from Cons.prems obtain resolved where r: "resolve dv al k = Some resolved"
    by (auto split: option.splits)
  define res' where "res' = (case resolved of None \<Rightarrow> res | Some d \<Rightarrow> if d \<noteq> [] then map_set res k d else res)"
  have rk: "resolve_keys dv al ks res' = Some result" using Cons.prems r by (simp add: res'_def)
  note ih = Cons.IH[OF rk]
  have res': "map_get res' nm =
      (if nm = k then (case resolved of Some d \<Rightarrow> Some d | None \<Rightarrow> map_get res nm) else map_get res nm)"
  proof (cases resolved)
    case None
    then show ?thesis by (simp add: res'_def)
  next
    case (Some d)
    then have "d \<noteq> []" using r resolve_nonempty by blast
    then show ?thesis using Some by (simp add: map_get_map_set res'_def)
  qed
  show ?case
  proof (cases "nm = k")
    case True
    show ?thesis
    proof (cases resolved)
      case None
      then show ?thesis using ih res' True r by (simp split: option.splits)
    next
      case (Some d)
      then show ?thesis using ih res' True r by (simp split: option.splits)
    qed
  next
    case False
    then show ?thesis using ih res' by (simp split: option.splits)
  qed
qed

lemma resolve_keys_returns:
  "\<forall>k \<in> set ks. resolve dv al k \<noteq> None \<Longrightarrow> resolve_keys dv al ks res \<noteq> None"
  by (induction ks arbitrary: res) (auto split: option.splits)

lemma distinct_keys_foldl_set:
  "distinct (map fst acc) \<Longrightarrow> distinct (map fst (foldl (\<lambda>mp m. map_set mp (f m) (g m)) acc ms))"
  by (induction ms arbitrary: acc) (simp_all add: map_set_def distinct_update)

lemma copy_map:
  "distinct (map fst dv) \<Longrightarrow>
   map_of (foldl (\<lambda>res (k, v). map_set res k v) acc dv) = map_of acc ++ map_of dv"
proof (induction dv arbitrary: acc)
  case Nil
  show ?case by simp
next
  case (Cons p dv)
  obtain k v where p: "p = (k, v)" by (cases p)
  have k: "k \<notin> dom (map_of dv)" using Cons.prems p by (auto simp: dom_map_of_conv_image_fst)
  have "map_of (foldl (\<lambda>res (k, v). map_set res k v) acc (p # dv))
        = map_of (map_set acc k v) ++ map_of dv"
    using Cons.IH[of "map_set acc k v"] Cons.prems p by simp
  also have "\<dots> = (map_of acc)(k \<mapsto> v) ++ map_of dv" by (simp add: map_set_def update_conv')
  also have "\<dots> = map_of acc ++ map_of (p # dv)"
    using k p by (auto simp: map_add_def fun_eq_iff split: option.splits)
  finally show ?case .
qed

lemma setup_result:
  assumes b: "extractMethodBody java ''setupRequirements'' = Some body" and ne: "body \<noteq> []"
    and r: "parseSetupRequirements java = Some result"
  shows "map_get result nm =
     (case resolve (displayByVar_of body) (alias_of body) nm of
        Some (Some d) \<Rightarrow> Some d
      | _ \<Rightarrow> map_get (displayByVar_of body) nm)"
proof -
  let ?dv = "displayByVar_of body" and ?al = "alias_of body"
  let ?copy = "foldl (\<lambda>res (k, v). map_set res k v) [] ?dv"
  have rk: "resolve_keys ?dv ?al (map fst ?al) ?copy = Some result"
    using b ne r by (simp add: parseSetupRequirements_def Let_def)
  have "distinct (map fst ?dv)" unfolding displayByVar_of_def by (rule distinct_keys_foldl_set) simp
  then have copy: "map_get ?copy nm = map_get ?dv nm" by (simp add: map_get_def copy_map)
  note res = resolve_keys_result[OF rk, of nm]
  show ?thesis
  proof (cases "nm \<in> set (map fst ?al)")
    case True
    then show ?thesis using res copy by (simp split: option.splits)
  next
    case False
    then have "map_get ?al nm = None" by (simp add: map_get_def map_of_eq_None_iff)
    then have t: "target_of ?al nm = None" by (simp add: target_of_def)
    have "resolve ?dv ?al nm = (case direct_of ?dv nm of Some d \<Rightarrow> Some (Some d) | None \<Rightarrow> Some None)"
      by (subst resolve_unfold) (simp add: t split: option.splits)
    then show ?thesis using res copy False
      by (auto simp: direct_of_def split: option.splits if_splits)
  qed
qed

lemma setup_returns:
  assumes "acyclic (alias_graph (alias_of body))"
    and "extractMethodBody java ''setupRequirements'' = Some body"
  shows "parseSetupRequirements java \<noteq> None"
proof -
  have "\<forall>k \<in> set (map fst (alias_of body)). resolve (displayByVar_of body) (alias_of body) k \<noteq> None"
    using resolve_returns[OF assms(1)] by (metis option.distinct(1))
  then have "resolve_keys (displayByVar_of body) (alias_of body) (map fst (alias_of body))
      (foldl (\<lambda>res (k, v). map_set res k v) [] (displayByVar_of body)) \<noteq> None"
    by (rule resolve_keys_returns)
  then show ?thesis using assms(2)
    by (simp add: parseSetupRequirements_def Let_def)
qed

lemma resolveItemRequirements_skip:
  assumes "map_get setupReqs v = None \<or> map_get setupReqs v = Some []"
  shows "resolveItemRequirements (xs @ v # ys) setupReqs = resolveItemRequirements (xs @ ys) setupReqs"
proof -
  let ?step = "\<lambda>(out, seen) v.
            case map_get setupReqs v of
              None \<Rightarrow> (out, seen)
            | Some display \<Rightarrow>
                if display \<noteq> [] \<and> display \<notin> seen then (out @ [display], insert display seen)
                else (out, seen)"
  have "?step acc v = acc" for acc using assms by (cases acc) auto
  then have "foldl ?step ([], {}) (xs @ v # ys) = foldl ?step ([], {}) (xs @ ys)" by simp
  then show ?thesis unfolding resolveItemRequirements_def by simp
qed

text \<open>
  C6, as amended.  A display string counts when it is not empty.  \<^verbatim>\<open>resolve\<close> returns
  the display string of the name when it has one, and otherwise that of the name at the
  end of its chain of aliases, whatever the length of the chain; when the chain ends at a
  name with neither a display string nor an alias it returns \<^verbatim>\<open>undefined\<close>.  On an
  acyclic alias graph it always returns.  In the map that \<^verbatim>\<open>parseSetupRequirements\<close>
  returns, a name that resolves is bound to its display string, and a name that resolves
  to \<^verbatim>\<open>undefined\<close> adds nothing to the item requirements: the output is the same with and
  without the reference.
\<close>

theorem resolve_alias_chain:
  "(follows dv al nm path final \<and> direct_of dv final = Some d \<longrightarrow>
      resolve dv al nm = Some (Some d)) \<and>
   (follows dv al nm path final \<and> direct_of dv final = None \<and> target_of al final = None \<longrightarrow>
      resolve dv al nm = Some None) \<and>
   (acyclic (alias_graph al) \<longrightarrow> resolve dv al nm \<noteq> None) \<and>
   (extractMethodBody java ''setupRequirements'' = Some body \<and> body \<noteq> [] \<and>
    parseSetupRequirements java = Some result \<longrightarrow>
      (resolve (displayByVar_of body) (alias_of body) v = Some (Some e) \<longrightarrow>
         map_get result v = Some e \<and> e \<noteq> []) \<and>
      (resolve (displayByVar_of body) (alias_of body) v = Some None \<longrightarrow>
         resolveItemRequirements (xs @ v # ys) result = resolveItemRequirements (xs @ ys) result)) \<and>
   (extractMethodBody java ''setupRequirements'' = Some body \<and>
    acyclic (alias_graph (alias_of body)) \<longrightarrow> parseSetupRequirements java \<noteq> None)"
proof (intro conjI impI)
  assume h: "follows dv al nm path final \<and> direct_of dv final = Some d"
  then have "resolve dv al nm = resolve dv al final" using resolve_follows[of dv al nm path final] by simp
  also have "\<dots> = Some (Some d)" using h by (subst resolve_unfold) simp
  finally show "resolve dv al nm = Some (Some d)" .
next
  assume h: "follows dv al nm path final \<and> direct_of dv final = None \<and> target_of al final = None"
  then have "resolve dv al nm = resolve dv al final" using resolve_follows[of dv al nm path final] by simp
  also have "\<dots> = Some None" using h by (subst resolve_unfold) simp
  finally show "resolve dv al nm = Some None" .
next
  assume "acyclic (alias_graph al)"
  then show "resolve dv al nm \<noteq> None" using resolve_returns[of al dv nm] by auto
next
  assume h: "extractMethodBody java ''setupRequirements'' = Some body \<and> body \<noteq> [] \<and>
    parseSetupRequirements java = Some result"
    and r: "resolve (displayByVar_of body) (alias_of body) v = Some (Some e)"
  show "map_get result v = Some e" using setup_result[of java body result v] h r by simp
  show "e \<noteq> []" using r by (rule resolve_nonempty)
next
  assume h: "extractMethodBody java ''setupRequirements'' = Some body \<and> body \<noteq> [] \<and>
    parseSetupRequirements java = Some result"
    and r: "resolve (displayByVar_of body) (alias_of body) v = Some None"
  have "map_get result v = map_get (displayByVar_of body) v"
    using setup_result[of java body result v] h r by simp
  moreover have "direct_of (displayByVar_of body) v = None" using r by (rule resolve_none_direct)
  ultimately have "map_get result v = None \<or> map_get result v = Some []"
    by (auto simp: direct_of_def split: option.splits if_splits)
  then show "resolveItemRequirements (xs @ v # ys) result = resolveItemRequirements (xs @ ys) result"
    by (rule resolveItemRequirements_skip)
next
  assume "extractMethodBody java ''setupRequirements'' = Some body \<and>
    acyclic (alias_graph (alias_of body))"
  then show "parseSetupRequirements java \<noteq> None" using setup_returns[of body java] by blast
qed

theorem resolve_alias_chain_witness:
  "follows [(''c'', ''D'')] [(''a'', ''b''), (''b'', ''c''), (''z'', ''y'')] ''a'' [''b'', ''c''] ''c'' \<and>
   direct_of [(''c'', ''D'')] ''c'' = Some ''D'' \<and>
   resolve [(''c'', ''D'')] [(''a'', ''b''), (''b'', ''c''), (''z'', ''y'')] ''a'' = Some (Some ''D'') \<and>
   follows [(''c'', ''D'')] [(''a'', ''b''), (''b'', ''c''), (''z'', ''y'')] ''z'' [''y''] ''y'' \<and>
   resolve [(''c'', ''D'')] [(''a'', ''b''), (''b'', ''c''), (''z'', ''y'')] ''z'' = Some None \<and>
   acyclic (alias_graph [(''a'', ''b''), (''b'', ''c''), (''z'', ''y'')]) \<and>
   parseSetupRequirements ''public void setupRequirements(){a=b.highlighted();b=c.highlighted();c=new ItemRequirement(\"D\");z=y.highlighted();}''
     = Some [(''c'', ''D''), (''a'', ''D''), (''b'', ''D'')] \<and>
   map_get [(''c'', ''D''), (''a'', ''D''), (''b'', ''D'')] ''a'' = Some ''D'' \<and>
   resolveItemRequirements [''a'', ''z'', ''c''] [(''c'', ''D''), (''a'', ''D''), (''b'', ''D'')] =
     resolveItemRequirements [''a'', ''c''] [(''c'', ''D''), (''a'', ''D''), (''b'', ''D'')]"
proof -
  let ?dv = "[(''c'', ''D'')]" and ?al = "[(''a'', ''b''), (''b'', ''c''), (''z'', ''y'')]"
  let ?java = "''public void setupRequirements(){a=b.highlighted();b=c.highlighted();c=new ItemRequirement(\"D\");z=y.highlighted();}''"
  let ?body = "''a=b.highlighted();b=c.highlighted();c=new ItemRequirement(\"D\");z=y.highlighted();''"
  let ?result = "[(''c'', ''D''), (''a'', ''D''), (''b'', ''D'')]"
  have f1: "follows ?dv ?al ''a'' [''b'', ''c''] ''c''" by code_simp
  have d1: "direct_of ?dv ''c'' = Some ''D''" by code_simp
  have f2: "follows ?dv ?al ''z'' [''y''] ''y''" by code_simp
  have d2: "direct_of ?dv ''y'' = None" "target_of ?al ''y'' = None" by code_simp+
  have ac: "acyclic (alias_graph ?al)"
    by (rule acyclic_by_rank[where rank = "\<lambda>s. if s = ''a'' \<or> s = ''z'' then 0 else if s = ''b'' then 1 else 2"]) simp
  have b: "extractMethodBody ?java ''setupRequirements'' = Some ?body" by code_simp
  have ne: "?body \<noteq> []" by simp
  have dv: "displayByVar_of ?body = ?dv" by code_simp
  have al: "alias_of ?body = ?al" by code_simp
  note inst = resolve_alias_chain[where dv = ?dv and al = ?al and java = ?java and body = ?body and result = ?result]
  have r1: "resolve ?dv ?al ''a'' = Some (Some ''D'')"
    using inst[where nm = "''a''" and path = "[''b'', ''c'']" and final = "''c''" and d = "''D''", THEN conjunct1] f1 d1
    by blast
  have r2: "resolve ?dv ?al ''z'' = Some None"
    using inst[where nm = "''z''" and path = "[''y'']" and final = "''y''", THEN conjunct2, THEN conjunct1] f2 d2
    by blast
  have p: "parseSetupRequirements ?java = Some ?result"
    using b dv al by (simp add: parseSetupRequirements_def Let_def, code_simp)
  have m: "map_get ?result ''a'' = Some ''D''"
    using inst[where v = "''a''" and e = "''D''", THEN conjunct2, THEN conjunct2, THEN conjunct2, THEN conjunct1]
      b ne p r1 dv al by simp
  have sk: "resolveItemRequirements ([''a''] @ ''z'' # [''c'']) ?result = resolveItemRequirements ([''a''] @ [''c'']) ?result"
    using inst[where v = "''z''" and xs = "[''a'']" and ys = "[''c'']", THEN conjunct2, THEN conjunct2, THEN conjunct2, THEN conjunct1]
      b ne p r2 dv al by simp
  show ?thesis using f1 d1 r1 f2 r2 ac p m sk by simp
qed

text \<open>
  C6 as stated fails on an empty literal: \<^verbatim>\<open>a = new ItemRequirement("")\<close> is a direct
  mapping of \<^verbatim>\<open>a\<close>, yet \<^verbatim>\<open>resolve\<close> follows the alias of \<^verbatim>\<open>a\<close> and returns the display
  string of \<^verbatim>\<open>b\<close>.
\<close>

theorem resolve_empty_literal_counterexample:
  "map_get (displayByVar_of ''a=new ItemRequirement(\"\");b=new ItemRequirement(\"B\");a=b.highlighted();'') ''a'' = Some [] \<and>
   resolve (displayByVar_of ''a=new ItemRequirement(\"\");b=new ItemRequirement(\"B\");a=b.highlighted();'')
           (alias_of ''a=new ItemRequirement(\"\");b=new ItemRequirement(\"B\");a=b.highlighted();'') ''a'' = Some (Some ''B'') \<and>
   parseSetupRequirements ''public void setupRequirements(){a=new ItemRequirement(\"\");b=new ItemRequirement(\"B\");a=b.highlighted();}''
     = Some [(''a'', ''B''), (''b'', ''B'')]"
  by code_simp

section \<open>Properties of the step table\<close>

text \<open>What the two loops of \<^verbatim>\<open>parseSetupSteps\<close> leave under a key.\<close>

lemma foldl_set_step_last:
  "map_get (foldl (set_step body) acc ms) v =
     (case find (\<lambda>m. grp_str m 1 = v) (rev ms) of
        Some m \<Rightarrow> Some (step_of body m)
      | None \<Rightarrow> map_get acc v)"
proof (induction ms rule: rev_induct)
  case Nil
  show ?case by simp
next
  case (snoc m ms)
  show ?case using snoc by (simp add: set_step_def map_get_map_set)
qed

lemma map_has_get: "map_has m k \<longleftrightarrow> map_get m k \<noteq> None"
  by (simp add: map_has_def map_get_def)

lemma set_step_if_absent_get:
  "map_get (set_step_if_absent body acc m) v =
     (case map_get acc v of
        Some d \<Rightarrow> Some d
      | None \<Rightarrow> if grp_str m 1 = v then Some (step_of body m) else None)"
  by (auto simp: set_step_if_absent_def map_has_get map_get_map_set split: option.splits)

lemma foldl_set_step_if_absent_first:
  "map_get (foldl (set_step_if_absent body) acc ms) v =
     (case map_get acc v of
        Some d \<Rightarrow> Some d
      | None \<Rightarrow> (case find (\<lambda>m. grp_str m 1 = v) ms of
                   Some m \<Rightarrow> Some (step_of body m)
                 | None \<Rightarrow> None))"
proof (induction ms arbitrary: acc)
  case Nil
  show ?case by (simp split: option.splits)
next
  case (Cons m ms)
  show ?case unfolding foldl_Cons Cons set_step_if_absent_get
    by (simp split: option.splits)
qed

lemma find_first_split:
  "P m \<Longrightarrow> \<forall>m'\<in>set xs. \<not> P m' \<Longrightarrow> find P (xs @ m # ys) = Some m"
  by (induction xs) simp_all

lemma find_last_split:
  "P m \<Longrightarrow> \<forall>m'\<in>set ys. \<not> P m' \<Longrightarrow> find P (rev (xs @ m # ys)) = Some m"
  using find_first_split[of P m "rev ys" "rev xs"] by simp

lemma find_none: "\<forall>m'\<in>set xs. \<not> P m' \<Longrightarrow> find P xs = None"
  by (simp add: find_None_iff)

lemma steps_of_body_get:
  "map_get (steps_of_body body) v =
     (case find (\<lambda>m. grp_str m 1 = v) (rev (exec_all stepAssignRegex 0 body)) of
        Some m \<Rightarrow> Some (step_of body m)
      | None \<Rightarrow> (case find (\<lambda>m. grp_str m 1 = v) (exec_all objectStepRegex 0 body) of
                   Some m \<Rightarrow> Some (step_of body m)
                 | None \<Rightarrow> None))"
  unfolding steps_of_body_def foldl_set_step_if_absent_first foldl_set_step_last
  by (simp add: map_get_def split: option.splits)

text \<open>
  C4, as amended.  The first loop stores with \<^verbatim>\<open>map.set\<close>, which overwrites: of the
  matches of the \<^verbatim>\<open>NpcStep|ObjectStep\<close> pattern that assign a variable, the last one
  gives the binding.  The second loop stores only when \<^verbatim>\<open>!map.has\<close>: it never
  overwrites, and a variable that no match of the first pattern assigns is bound by the
  first match of the \<^verbatim>\<open>ObjectStep\<close> pattern that assigns it.  A variable that no
  match assigns is not in the table.
\<close>

theorem parseSetupSteps_last_binding:
  assumes "extractMethodBody java ''setupSteps'' = Some body" and "body \<noteq> []"
  shows "(exec_all stepAssignRegex 0 body = xs @ m # ys \<and> grp_str m 1 = v \<and>
          (\<forall>m'\<in>set ys. grp_str m' 1 \<noteq> v) \<longrightarrow>
            map_get (parseSetupSteps java) v = Some (step_of body m)) \<and>
         ((\<forall>m'\<in>set (exec_all stepAssignRegex 0 body). grp_str m' 1 \<noteq> v) \<and>
          exec_all objectStepRegex 0 body = xs @ m # ys \<and> grp_str m 1 = v \<and>
          (\<forall>m'\<in>set xs. grp_str m' 1 \<noteq> v) \<longrightarrow>
            map_get (parseSetupSteps java) v = Some (step_of body m)) \<and>
         ((\<forall>m'\<in>set (exec_all stepAssignRegex 0 body). grp_str m' 1 \<noteq> v) \<and>
          (\<forall>m'\<in>set (exec_all objectStepRegex 0 body). grp_str m' 1 \<noteq> v) \<longrightarrow>
            map_get (parseSetupSteps java) v = None)"
proof -
  have p: "parseSetupSteps java = steps_of_body body"
    using assms by (simp add: parseSetupSteps_def)
  show ?thesis
  proof (intro conjI impI)
    assume h: "exec_all stepAssignRegex 0 body = xs @ m # ys \<and> grp_str m 1 = v \<and>
          (\<forall>m'\<in>set ys. grp_str m' 1 \<noteq> v)"
    then have "find (\<lambda>m. grp_str m 1 = v) (rev (exec_all stepAssignRegex 0 body)) = Some m"
      using find_last_split[of "\<lambda>m. grp_str m 1 = v" m ys xs] by simp
    then show "map_get (parseSetupSteps java) v = Some (step_of body m)"
      unfolding p steps_of_body_get by simp
  next
    assume h: "(\<forall>m'\<in>set (exec_all stepAssignRegex 0 body). grp_str m' 1 \<noteq> v) \<and>
          exec_all objectStepRegex 0 body = xs @ m # ys \<and> grp_str m 1 = v \<and>
          (\<forall>m'\<in>set xs. grp_str m' 1 \<noteq> v)"
    then have "find (\<lambda>m. grp_str m 1 = v) (rev (exec_all stepAssignRegex 0 body)) = None"
      using find_none[of "rev (exec_all stepAssignRegex 0 body)" "\<lambda>m. grp_str m 1 = v"] by simp
    moreover have "find (\<lambda>m. grp_str m 1 = v) (exec_all objectStepRegex 0 body) = Some m"
      using h find_first_split[of "\<lambda>m. grp_str m 1 = v" m xs ys] by simp
    ultimately show "map_get (parseSetupSteps java) v = Some (step_of body m)"
      unfolding p steps_of_body_get by simp
  next
    assume h: "(\<forall>m'\<in>set (exec_all stepAssignRegex 0 body). grp_str m' 1 \<noteq> v) \<and>
          (\<forall>m'\<in>set (exec_all objectStepRegex 0 body). grp_str m' 1 \<noteq> v)"
    then have "find (\<lambda>m. grp_str m 1 = v) (rev (exec_all stepAssignRegex 0 body)) = None"
      using find_none[of "rev (exec_all stepAssignRegex 0 body)" "\<lambda>m. grp_str m 1 = v"] by simp
    moreover have "find (\<lambda>m. grp_str m 1 = v) (exec_all objectStepRegex 0 body) = None"
      using h find_none[of "exec_all objectStepRegex 0 body" "\<lambda>m. grp_str m 1 = v"] by simp
    ultimately show "map_get (parseSetupSteps java) v = None"
      unfolding p steps_of_body_get by simp
  qed
qed


theorem parseSetupSteps_last_binding_witness:
  "extractMethodBody ''public void setupSteps(){s=new NpcStep(this,n,new WorldPoint(1,1,0),\"A\");s=new NpcStep(this,n,new WorldPoint(2,2,0),\"B\");}'' ''setupSteps''
     = Some ''s=new NpcStep(this,n,new WorldPoint(1,1,0),\"A\");s=new NpcStep(this,n,new WorldPoint(2,2,0),\"B\");'' \<and>
   exec_all stepAssignRegex 0 ''s=new NpcStep(this,n,new WorldPoint(1,1,0),\"A\");s=new NpcStep(this,n,new WorldPoint(2,2,0),\"B\");''
     = [\<lparr>m_index = 0, m_all = ''s=new NpcStep(this,n,new WorldPoint(1,1,0),\"'',
         m_groups = [Some ''s'', Some ''1'', Some ''1'', Some ''0'']\<rparr>] @
       \<lparr>m_index = 48, m_all = ''s=new NpcStep(this,n,new WorldPoint(2,2,0),\"'',
         m_groups = [Some ''s'', Some ''2'', Some ''2'', Some ''0'']\<rparr> # [] \<and>
   map_get (parseSetupSteps ''public void setupSteps(){s=new NpcStep(this,n,new WorldPoint(1,1,0),\"A\");s=new NpcStep(this,n,new WorldPoint(2,2,0),\"B\");}'') ''s''
     = Some \<lparr>stepDescription = ''B'', worldpoint = \<lparr>wp_x = Num 2, wp_y = Num 2, wp_plane = Num 0\<rparr>\<rparr>"
proof -
  let ?java = "''public void setupSteps(){s=new NpcStep(this,n,new WorldPoint(1,1,0),\"A\");s=new NpcStep(this,n,new WorldPoint(2,2,0),\"B\");}''"
  let ?body = "''s=new NpcStep(this,n,new WorldPoint(1,1,0),\"A\");s=new NpcStep(this,n,new WorldPoint(2,2,0),\"B\");''"
  let ?m1 = "\<lparr>m_index = 0, m_all = ''s=new NpcStep(this,n,new WorldPoint(1,1,0),\"'',
         m_groups = [Some ''s'', Some ''1'', Some ''1'', Some ''0'']\<rparr>"
  let ?m2 = "\<lparr>m_index = 48, m_all = ''s=new NpcStep(this,n,new WorldPoint(2,2,0),\"'',
         m_groups = [Some ''s'', Some ''2'', Some ''2'', Some ''0'']\<rparr>"
  have b: "extractMethodBody ?java ''setupSteps'' = Some ?body" by code_simp
  have ne: "?body \<noteq> []" by simp
  have e: "exec_all stepAssignRegex 0 ?body = [?m1] @ ?m2 # []" by code_simp
  have g: "grp_str ?m2 1 = ''s''" by code_simp
  have st: "step_of ?body ?m2 =
      \<lparr>stepDescription = ''B'', worldpoint = \<lparr>wp_x = Num 2, wp_y = Num 2, wp_plane = Num 0\<rparr>\<rparr>"
    by code_simp
  have "map_get (parseSetupSteps ?java) ''s'' = Some (step_of ?body ?m2)"
    using parseSetupSteps_last_binding[OF b ne, THEN conjunct1, of "[?m1]" ?m2 "[]" "''s''"] e g
    by simp
  then show ?thesis using b e st by simp
qed

text \<open>
  C4 as stated fails: of two matching assignments to \<^verbatim>\<open>s\<close>, the table holds the
  second.
\<close>

theorem parseSetupSteps_first_binding_counterexample:
  "map (\<lambda>m. (grp_str m 1, step_of ''s=new ObjectStep(this,n,new WorldPoint(1,1,0),\"A\");s=new NpcStep(this,n,new WorldPoint(2,2,0),\"B\");'' m))
     (exec_all stepAssignRegex 0 ''s=new ObjectStep(this,n,new WorldPoint(1,1,0),\"A\");s=new NpcStep(this,n,new WorldPoint(2,2,0),\"B\");'')
     = [(''s'', \<lparr>stepDescription = ''A'', worldpoint = \<lparr>wp_x = Num 1, wp_y = Num 1, wp_plane = Num 0\<rparr>\<rparr>),
        (''s'', \<lparr>stepDescription = ''B'', worldpoint = \<lparr>wp_x = Num 2, wp_y = Num 2, wp_plane = Num 0\<rparr>\<rparr>)] \<and>
   parseSetupSteps ''public void setupSteps(){s=new ObjectStep(this,n,new WorldPoint(1,1,0),\"A\");s=new NpcStep(this,n,new WorldPoint(2,2,0),\"B\");}''
     = [(''s'', \<lparr>stepDescription = ''B'', worldpoint = \<lparr>wp_x = Num 2, wp_y = Num 2, wp_plane = Num 0\<rparr>\<rparr>)]"
  by code_simp

section \<open>Properties of the coordinates\<close>













































section \<open>Properties of the lamp-reward extraction\<close>

text \<open>
  A lamp-like construct as the pattern reads it: \<^verbatim>\<open>new LampReward\<close> or
  \<^verbatim>\<open>new XpLampReward\<close>, or \<^verbatim>\<open>ItemReward(\<close> with a first string literal that holds
  \<^verbatim>\<open>Lamp\<close> or \<^verbatim>\<open>lamp\<close>; then everything up to the next closing parenthesis.
\<close>

definition lamp_constructor :: "string \<Rightarrow> bool" where
  "lamp_constructor h \<longleftrightarrow>
     (\<exists>ws k. h = ''new'' @ ws @ k \<and> ws \<noteq> [] \<and> spaces ws \<and>
        (k = ''LampReward'' \<or> k = ''XpLampReward''))"

definition lamp_item :: "string \<Rightarrow> bool" where
  "lamp_item h \<longleftrightarrow>
     (\<exists>ws1 ws2 a c b ws3.
        h = ''ItemReward'' @ ws1 @ ''('' @ ws2 @ [dq] @ a @ [c] @ ''amp'' @ b @ [dq] @ ws3 \<and>
        spaces ws1 \<and> spaces ws2 \<and> dq \<notin> set a \<and> (c = CHR ''L'' \<or> c = CHR ''l'') \<and>
        dq \<notin> set b \<and> spaces ws3)"

definition lamp_like :: "string \<Rightarrow> bool" where
  "lamp_like w \<longleftrightarrow>
     (\<exists>h args. w = h @ args @ '')'' \<and> (lamp_constructor h \<or> lamp_item h) \<and> CHR '')'' \<notin> set args)"

lemma lang_lamp_constructor:
  "h \<in> lang (seqs [Str ''new'', Rep 1 is_space, Alt (Str ''LampReward'') (Str ''XpLampReward'')])
   \<longleftrightarrow> lamp_constructor h"
proof
  assume "h \<in> lang (seqs [Str ''new'', Rep 1 is_space, Alt (Str ''LampReward'') (Str ''XpLampReward'')])"
  then obtain u1 u2 u3 u4 where "h = u1 @ u2 @ u3 @ u4" "u1 \<in> lang (Str ''new'')"
    "u2 \<in> lang (Rep 1 is_space)" "u3 \<in> lang (Alt (Str ''LampReward'') (Str ''XpLampReward''))"
    "u4 \<in> lang (seqs [])"
    by (elim lang_seqs_ConsE) blast
  then have "h = ''new'' @ u2 @ u3 \<and> u2 \<noteq> [] \<and> spaces u2 \<and> (u3 = ''LampReward'' \<or> u3 = ''XpLampReward'')"
    unfolding lang_Str lang_Rep1 lang_Alt lang_seqs_Nil spaces_def by simp
  then show "lamp_constructor h" unfolding lamp_constructor_def by blast
next
  assume "lamp_constructor h"
  then obtain ws k where h0: "h = ''new'' @ ws @ k" and a: "ws \<noteq> []" "spaces ws"
    "k = ''LampReward'' \<or> k = ''XpLampReward''"
    unfolding lamp_constructor_def by blast
  have h: "h = ''new'' @ ws @ k @ []" using h0 by simp
  show "h \<in> lang (seqs [Str ''new'', Rep 1 is_space, Alt (Str ''LampReward'') (Str ''XpLampReward'')])"
    unfolding h using a
    by (intro lang_seqs_ConsI lang_seqs_NilI)
       (simp_all only: lang_Alt lang_Str lang_Rep1 spaces_def simp_thms)
qed

lemma lang_Chr_is_L: "u \<in> lang (Chr is_L) \<longleftrightarrow> (\<exists>c. u = [c] \<and> (c = CHR ''L'' \<or> c = CHR ''l''))"
  unfolding lang_Chr is_L_def ..

lemma lang_lamp_item:
  "h \<in> lang (seqs [Str ''ItemReward'', Rep 0 is_space, Str ''('', Rep 0 is_space, Str [dq],
                 Rep 0 (is_not dq), Chr is_L, Str ''amp'', Rep 0 (is_not dq), Str [dq],
                 Rep 0 is_space])
   \<longleftrightarrow> lamp_item h"
proof
  assume "h \<in> lang (seqs [Str ''ItemReward'', Rep 0 is_space, Str ''('', Rep 0 is_space, Str [dq],
                 Rep 0 (is_not dq), Chr is_L, Str ''amp'', Rep 0 (is_not dq), Str [dq],
                 Rep 0 is_space])"
  then obtain u1 u2 u3 u4 u5 u6 u7 u8 u9 u10 u11 u12 where
    "h = u1 @ u2 @ u3 @ u4 @ u5 @ u6 @ u7 @ u8 @ u9 @ u10 @ u11 @ u12"
    "u1 \<in> lang (Str ''ItemReward'')" "u2 \<in> lang (Rep 0 is_space)" "u3 \<in> lang (Str ''('')"
    "u4 \<in> lang (Rep 0 is_space)" "u5 \<in> lang (Str [dq])" "u6 \<in> lang (Rep 0 (is_not dq))"
    "u7 \<in> lang (Chr is_L)" "u8 \<in> lang (Str ''amp'')" "u9 \<in> lang (Rep 0 (is_not dq))"
    "u10 \<in> lang (Str [dq])" "u11 \<in> lang (Rep 0 is_space)" "u12 \<in> lang (seqs [])"
    by (elim lang_seqs_ConsE) blast
  then obtain c where "h = ''ItemReward'' @ u2 @ ''('' @ u4 @ [dq] @ u6 @ [c] @ ''amp'' @ u9 @ [dq] @ u11 \<and>
      spaces u2 \<and> spaces u4 \<and> dq \<notin> set u6 \<and> (c = CHR ''L'' \<or> c = CHR ''l'') \<and> dq \<notin> set u9 \<and> spaces u11"
    unfolding lang_Str lang_Rep0 lang_Chr_is_L lang_seqs_Nil spaces_def list_all_is_not by auto
  then show "lamp_item h" unfolding lamp_item_def by blast
next
  assume "lamp_item h"
  then obtain ws1 ws2 a c b ws3 where
    h0: "h = ''ItemReward'' @ ws1 @ ''('' @ ws2 @ [dq] @ a @ [c] @ ''amp'' @ b @ [dq] @ ws3"
    and a: "spaces ws1" "spaces ws2" "dq \<notin> set a" "c = CHR ''L'' \<or> c = CHR ''l''" "dq \<notin> set b" "spaces ws3"
    unfolding lamp_item_def by blast
  have h: "h = ''ItemReward'' @ ws1 @ ''('' @ ws2 @ [dq] @ a @ [c] @ ''amp'' @ b @ [dq] @ ws3 @ []"
    using h0 by simp
  have c: "[c] \<in> lang (Chr is_L)" unfolding lang_Chr_is_L using a(4) by blast
  show "h \<in> lang (seqs [Str ''ItemReward'', Rep 0 is_space, Str ''('', Rep 0 is_space, Str [dq],
                 Rep 0 (is_not dq), Chr is_L, Str ''amp'', Rep 0 (is_not dq), Str [dq],
                 Rep 0 is_space])"
    unfolding h using a c
    by (intro lang_seqs_ConsI lang_seqs_NilI)
       (simp_all only: lang_Str lang_Rep0 spaces_def list_all_is_not simp_thms)
qed

lemma lang_lampRe: "w \<in> lang lampRe \<longleftrightarrow> lamp_like w"
proof
  assume "w \<in> lang lampRe"
  then obtain u1 u2 u3 u4 where "w = u1 @ u2 @ u3 @ u4"
    "u1 \<in> lang (Alt (seqs [Str ''new'', Rep 1 is_space, Alt (Str ''LampReward'') (Str ''XpLampReward'')])
          (seqs [Str ''ItemReward'', Rep 0 is_space, Str ''('', Rep 0 is_space, Str [dq],
                 Rep 0 (is_not dq), Chr is_L, Str ''amp'', Rep 0 (is_not dq), Str [dq],
                 Rep 0 is_space]))"
    "u2 \<in> lang (Rep 0 (is_not CHR '')''))" "u3 \<in> lang (Str '')'')" "u4 \<in> lang (seqs [])"
    unfolding lampRe_def by (elim lang_seqs_ConsE) blast
  then have "w = u1 @ u2 @ '')'' \<and> (lamp_constructor u1 \<or> lamp_item u1) \<and> CHR '')'' \<notin> set u2"
    unfolding lang_Alt lang_lamp_constructor lang_lamp_item lang_Str lang_Rep0 lang_seqs_Nil
      list_all_is_not by simp
  then show "lamp_like w" unfolding lamp_like_def by blast
next
  assume "lamp_like w"
  then obtain h args where w0: "w = h @ args @ '')''" and a: "lamp_constructor h \<or> lamp_item h"
    "CHR '')'' \<notin> set args"
    unfolding lamp_like_def by blast
  have w: "w = h @ args @ '')'' @ []" using w0 by simp
  show "w \<in> lang lampRe"
    unfolding w lampRe_def using a
    by (intro lang_seqs_ConsI lang_seqs_NilI)
       (simp_all only: lang_Alt lang_lamp_constructor lang_lamp_item lang_Str lang_Rep0
          list_all_is_not simp_thms)
qed

lemma lamp_like_nonempty: "\<not> lamp_like []"
  unfolding lamp_like_def by simp

lemma js_match_all_first:
  assumes "[] \<notin> lang r"
  shows "(case js_match_all r s of
            None \<Rightarrow> js_match r s = None
          | Some ms \<Rightarrow> (\<exists>m others. js_match r s = Some m \<and> ms = m_all m # others))"
proof (cases "search r 0 s")
  case None
  then have "exec_all r 0 s = []" by (subst exec_all.simps) simp
  then show ?thesis using None by (simp add: js_match_all_def js_match_def)
next
  case (Some m)
  from search_index[OF Some] have "m_all m \<in> lang r" using lang_iff by blast
  then have ne: "m_all m \<noteq> []" using assms by auto
  have "exec_all r 0 s = m # exec_all r (m_end m) (drop (m_end m - 0) s)"
    using Some ne by (subst exec_all.simps) simp
  then show ?thesis using Some by (simp add: js_match_all_def js_match_def)
qed

lemma parseLampRewards_eq:
  "parseLampRewards java =
     (case extractMethodBody java ''getItemRewards'' of
        None \<Rightarrow> None
      | Some body \<Rightarrow> (case js_match lampRe body of
                        None \<Rightarrow> None
                      | Some m \<Rightarrow> Some (lampFields (m_all m))))"
proof (cases "extractMethodBody java ''getItemRewards''")
  case None
  then show ?thesis by (simp add: parseLampRewards_def)
next
  case (Some body)
  have e: "[] \<notin> lang lampRe" unfolding lang_lampRe by (rule lamp_like_nonempty)
  show ?thesis
  proof (cases "body = []")
    case True
    have "js_match lampRe [] = None" unfolding js_match_None using e by simp
    then show ?thesis using Some True by (simp add: parseLampRewards_def)
  next
    case False
    show ?thesis using js_match_all_first[OF e, of body] Some False
      by (auto simp: parseLampRewards_def split: option.splits list.splits)
  qed
qed

text \<open>
  C8, as amended.  \<^verbatim>\<open>parseLampRewards\<close> returns null exactly when
  \<^verbatim>\<open>getItemRewards\<close> is not found or its body holds no lamp-like construct, where the
  string of an \<^verbatim>\<open>ItemReward\<close> must hold \<^verbatim>\<open>Lamp\<close> or \<^verbatim>\<open>lamp\<close> (only the first letter
  in either case).  Otherwise the fields are read from the leftmost lamp-like construct of
  the body, whichever of the two forms it has.  A field for which neither its pattern nor
  its fallback matches in that text is \<^verbatim>\<open>"Any"\<close>, 0 and 1 respectively.
\<close>

theorem parseLampRewards_lamp_like:
  "(parseLampRewards java = None \<longleftrightarrow>
      (\<forall>body. extractMethodBody java ''getItemRewards'' = Some body \<longrightarrow>
         (\<forall>p w t. body = p @ w @ t \<longrightarrow> \<not> lamp_like w))) \<and>
   (parseLampRewards java = Some r \<longrightarrow>
      (\<exists>body p first t. extractMethodBody java ''getItemRewards'' = Some body \<and>
         body = p @ first @ t \<and> lamp_like first \<and>
         (\<forall>p' w t'. body = p' @ w @ t' \<and> lamp_like w \<longrightarrow> length p \<le> length p') \<and>
         r = lampFields first)) \<and>
   ((\<forall>p w t. first = p @ w @ t \<longrightarrow> w \<notin> lang skillsRe \<and> w \<notin> lang anyRe) \<longrightarrow>
      lr_skills (lampFields first) = ''Any'') \<and>
   ((\<forall>p w t. first = p @ w @ t \<longrightarrow> w \<notin> lang valueRe \<and> w \<notin> lang digits3Re) \<longrightarrow>
      lr_value (lampFields first) = Num 0) \<and>
   ((\<forall>p w t. first = p @ w @ t \<longrightarrow> w \<notin> lang quantityRe \<and> w \<notin> lang lastArgRe) \<longrightarrow>
      lr_quantity (lampFields first) = Num 1)"
proof (intro conjI impI)
  show "parseLampRewards java = None \<longleftrightarrow>
      (\<forall>body. extractMethodBody java ''getItemRewards'' = Some body \<longrightarrow>
         (\<forall>p w t. body = p @ w @ t \<longrightarrow> \<not> lamp_like w))"
  proof (cases "extractMethodBody java ''getItemRewards''")
    case None
    then show ?thesis by (simp add: parseLampRewards_eq)
  next
    case (Some body)
    have "parseLampRewards java = None \<longleftrightarrow> js_match lampRe body = None"
      using Some by (simp add: parseLampRewards_eq split: option.splits)
    also have "\<dots> \<longleftrightarrow> (\<forall>p w t. body = p @ w @ t \<longrightarrow> \<not> lamp_like w)"
      unfolding js_match_None lang_lampRe ..
    finally show ?thesis using Some by simp
  qed
next
  assume r: "parseLampRewards java = Some r"
  then obtain body where b: "extractMethodBody java ''getItemRewards'' = Some body"
    by (auto simp: parseLampRewards_eq split: option.splits)
  then obtain m where m: "search lampRe 0 body = Some m" and rm: "r = lampFields (m_all m)"
    using r by (auto simp: parseLampRewards_eq js_match_def split: option.splits)
  show "\<exists>body p first t. extractMethodBody java ''getItemRewards'' = Some body \<and>
         body = p @ first @ t \<and> lamp_like first \<and>
         (\<forall>p' w t'. body = p' @ w @ t' \<and> lamp_like w \<longrightarrow> length p \<le> length p') \<and>
         r = lampFields first"
  proof (rule search_SomeE[OF m])
    fix p t
    assume s: "body = p @ m_all m @ t" and ps: "(m_all m, m_groups m) \<in> parses lampRe"
      and least: "\<And>p' w t'. body = p' @ w @ t' \<Longrightarrow> w \<in> lang lampRe \<Longrightarrow> length p \<le> length p'"
    have "lamp_like (m_all m)" using ps lang_iff lang_lampRe by blast
    moreover have "\<forall>p' w t'. body = p' @ w @ t' \<and> lamp_like w \<longrightarrow> length p \<le> length p'"
      using least unfolding lang_lampRe by blast
    ultimately have "extractMethodBody java ''getItemRewards'' = Some body \<and>
         body = p @ m_all m @ t \<and> lamp_like (m_all m) \<and>
         (\<forall>p' w t'. body = p' @ w @ t' \<and> lamp_like w \<longrightarrow> length p \<le> length p') \<and>
         r = lampFields (m_all m)"
      using b s rm by (intro conjI)
    then show ?thesis by (intro exI)
  qed
next
  assume "\<forall>p w t. first = p @ w @ t \<longrightarrow> w \<notin> lang skillsRe \<and> w \<notin> lang anyRe"
  then have "js_match skillsRe first = None" "js_match anyRe first = None"
    unfolding js_match_None by blast+
  then show "lr_skills (lampFields first) = ''Any''" by (simp add: lampFields_def orElse_def)
next
  assume "\<forall>p w t. first = p @ w @ t \<longrightarrow> w \<notin> lang valueRe \<and> w \<notin> lang digits3Re"
  then have "js_match valueRe first = None" "js_match digits3Re first = None"
    unfolding js_match_None by blast+
  then show "lr_value (lampFields first) = Num 0" by (simp add: lampFields_def orElse_def)
next
  assume "\<forall>p w t. first = p @ w @ t \<longrightarrow> w \<notin> lang quantityRe \<and> w \<notin> lang lastArgRe"
  then have "js_match quantityRe first = None" "js_match lastArgRe first = None"
    unfolding js_match_None by blast+
  then show "lr_quantity (lampFields first) = Num 1" by (simp add: lampFields_def orElse_def)
qed

theorem parseLampRewards_lamp_like_witness:
  "parseLampRewards ''public L getItemRewards() { return new Coins(5); }'' = None \<and>
   parseLampRewards ''public L getItemRewards() { return new ItemReward(\"XP Lamp\",4447,2); }''
     = Some \<lparr>lr_skills = ''Any'', lr_value = Num 4447, lr_quantity = Num 2\<rparr> \<and>
   (\<exists>first. lamp_like first \<and>
      \<lparr>lr_skills = ''Any'', lr_value = Num 4447, lr_quantity = Num 2\<rparr> = lampFields first) \<and>
   lamp_like ''new LampReward()'' \<and>
   lr_skills (lampFields ''new LampReward()'') = ''Any'' \<and>
   lr_value (lampFields ''new LampReward()'') = Num 0 \<and>
   lr_quantity (lampFields ''new LampReward()'') = Num 1"
proof -
  let ?j1 = "''public L getItemRewards() { return new ItemReward(\"XP Lamp\",4447,2); }''"
  let ?j2 = "''public L getItemRewards() { return new Coins(5); }''"
  let ?b2 = "'' return new Coins(5); ''"
  let ?r = "\<lparr>lr_skills = ''Any'', lr_value = Num 4447, lr_quantity = Num 2\<rparr>"
  let ?f = "''new LampReward()''"
  have b2: "extractMethodBody ?j2 ''getItemRewards'' = Some ?b2" by code_simp
  have "\<forall>p w t. ?b2 = p @ w @ t \<longrightarrow> w \<notin> lang lampRe"
    unfolding js_match_None[symmetric] by code_simp
  then have none: "\<forall>body. extractMethodBody ?j2 ''getItemRewards'' = Some body \<longrightarrow>
         (\<forall>p w t. body = p @ w @ t \<longrightarrow> \<not> lamp_like w)"
    unfolding b2 lang_lampRe by simp
  have 1: "parseLampRewards ?j2 = None"
    using parseLampRewards_lamp_like[where java = ?j2, THEN conjunct1, THEN iffD2, OF none] .
  have r: "parseLampRewards ?j1 = Some ?r" by code_simp
  have "\<exists>body p first t. extractMethodBody ?j1 ''getItemRewards'' = Some body \<and>
         body = p @ first @ t \<and> lamp_like first \<and>
         (\<forall>p' w t'. body = p' @ w @ t' \<and> lamp_like w \<longrightarrow> length p \<le> length p') \<and>
         ?r = lampFields first"
    using parseLampRewards_lamp_like[where java = ?j1 and r = ?r, THEN conjunct2, THEN conjunct1] r
    by (rule mp)
  then have 2: "\<exists>first. lamp_like first \<and> ?r = lampFields first" by blast
  have l: "lamp_like ?f" unfolding lang_lampRe[symmetric] lang_code by code_simp
  have s1: "\<forall>p w t. ?f = p @ w @ t \<longrightarrow> w \<notin> lang skillsRe"
    unfolding js_match_None[symmetric] by code_simp
  have s2: "\<forall>p w t. ?f = p @ w @ t \<longrightarrow> w \<notin> lang anyRe"
    unfolding js_match_None[symmetric] by code_simp
  have v1: "\<forall>p w t. ?f = p @ w @ t \<longrightarrow> w \<notin> lang valueRe"
    unfolding js_match_None[symmetric] by code_simp
  have v2: "\<forall>p w t. ?f = p @ w @ t \<longrightarrow> w \<notin> lang digits3Re"
    unfolding js_match_None[symmetric] by code_simp
  have q1: "\<forall>p w t. ?f = p @ w @ t \<longrightarrow> w \<notin> lang quantityRe"
    unfolding js_match_None[symmetric] by code_simp
  have q2: "\<forall>p w t. ?f = p @ w @ t \<longrightarrow> w \<notin> lang lastArgRe"
    unfolding js_match_None[symmetric] by code_simp
  note d = parseLampRewards_lamp_like[where first = ?f, THEN conjunct2, THEN conjunct2]
  have 3: "lr_skills (lampFields ?f) = ''Any''"
    using d[THEN conjunct1] s1 s2 by blast
  have 4: "lr_value (lampFields ?f) = Num 0"
    using d[THEN conjunct2, THEN conjunct1] v1 v2 by blast
  have 5: "lr_quantity (lampFields ?f) = Num 1"
    using d[THEN conjunct2, THEN conjunct2] q1 q2 by blast
  show ?thesis using 1 r 2 l 3 4 5 by (intro conjI)
qed

text \<open>
  C8 as stated fails: \<^verbatim>\<open>"XP LAMP"\<close> holds the substring lamp in upper case and is not
  found; and where an \<^verbatim>\<open>ItemReward\<close> lamp stands before an explicit
  \<^verbatim>\<open>LampReward\<close>, the fields are those of the \<^verbatim>\<open>ItemReward\<close>, not those of the explicit
  constructor.
\<close>

theorem parseLampRewards_case_counterexample:
  "parseLampRewards ''public L getItemRewards() { return new ItemReward(\"XP LAMP\",4447,2); }'' = None \<and>
   parseLampRewards ''public L getItemRewards() { return new ItemReward(\"a lamp\", 1); new LampReward(\"Any\", 5000, 2); }''
     = Some \<lparr>lr_skills = ''Any'', lr_value = Num 0, lr_quantity = Num 1\<rparr> \<and>
   lampFields ''new LampReward(\"Any\", 5000, 2)''
     = \<lparr>lr_skills = ''Any'', lr_value = Num 5000, lr_quantity = Num 1\<rparr>"
  by code_simp

section \<open>The batch orchestrator\<close>

text \<open>
  The names: \<^verbatim>\<open>displayNameToClassName\<close>, \<^verbatim>\<open>classNameToFolder\<close>,
  \<^verbatim>\<open>classNameToDisplayName\<close>, \<^verbatim>\<open>questFileUrl\<close> and \<^verbatim>\<open>extractClassName\<close>.  The case
  of a letter is changed on the letters a to z.
\<close>

definition QUEST_HELPER_RAW_BASE :: string where
  "QUEST_HELPER_RAW_BASE =
     ''https://raw.githubusercontent.com/Zoinkwiz/quest-helper/master/src/main/java/com/questhelper/helpers/quests''"

definition displayNameToClassName :: "string \<Rightarrow> string" where
  "displayNameToClassName name =
     concat (map (\<lambda>word. map to_upper (take 1 word) @ map to_lower (drop 1 word))
                 (split_ws (filter (\<lambda>c. c \<noteq> CHR 0x27) name)))"

definition classNameToFolder :: "string \<Rightarrow> string" where
  "classNameToFolder name = js_replace_all (Grp (Chr is_upper)) (\<lambda>m. map to_lower (m_all m)) name"

text \<open>The replacement \<^verbatim>\<open>"$1 $2"\<close>.\<close>

definition spaced :: "rmatch \<Rightarrow> string" where
  "spaced m = grp_str m 1 @ '' '' @ grp_str m 2"

definition classNameToDisplayName :: "string \<Rightarrow> string" where
  "classNameToDisplayName className =
     js_trim
       (js_replace_all (Seq (Grp (Rep 1 is_upper)) (Grp (Seq (Chr is_upper) (Chr is_lower)))) spaced
          (js_replace_all (Seq (Grp (Chr is_lower)) (Grp (Chr is_upper))) spaced className))"

definition questFileUrl :: "string \<Rightarrow> string" where
  "questFileUrl displayName =
     (let className = displayNameToClassName displayName;
          folder = classNameToFolder className
      in QUEST_HELPER_RAW_BASE @ ''/'' @ folder @ ''/'' @ className @ ''.java'')"

definition classRe :: re where
  "classRe = seqs [Str ''public'', Rep 1 is_space, Str ''class'', Rep 1 is_space,
                   Grp (Rep 1 is_word), Rep 1 is_space, Str ''extends'']"

definition extractClassName :: "string \<Rightarrow> string" where
  "extractClassName java = (case js_match classRe java of None \<Rightarrow> [] | Some m \<Rightarrow> grp_str m 1)"

record QuestData =
  qd_name :: string
  qd_questPoints :: jsnum
  qd_experienceRewards :: "ExperienceReward list"
  qd_lampRewards :: "LampReward option"
  qd_skillRequirements :: "SkillRequirement list"
  qd_questRequirements :: "string list"
  qd_questPointRequirement :: "jsnum option"
  qd_itemRequirements :: "string list"
  qd_steps :: "QuestPanel list"

text \<open>
  The body of the loop of \<^verbatim>\<open>main\<close> between the fetch and the write: the output key and
  the record of one source.  Nothing here is inside a \<^verbatim>\<open>try\<close>; \<open>None\<close> is an exception
  that leaves \<^verbatim>\<open>main\<close>, which is what \<^verbatim>\<open>parseSetupRequirements\<close> gives when its
  recursion does not end.
\<close>

definition questData :: "string \<Rightarrow> string \<Rightarrow> (string \<times> QuestData) option" where
  "questData displayName java =
     (let className = extractClassName java;
          name = (if className \<noteq> [] then classNameToDisplayName className else displayName);
          slug = (if className \<noteq> [] then classNameToFolder className
                  else classNameToFolder (displayNameToClassName displayName));
          questPoints = parseQuestPoints java;
          experienceRewards = parseExperienceRewards java;
          lampRewards = parseLampRewards java;
          general = parseGeneralRequirements java;
          itemVarNames = parseItemRequirementVarNames java
      in case parseSetupRequirements java of
           None \<Rightarrow> None
         | Some setupReqs \<Rightarrow>
             (let itemRequirements = resolveItemRequirements itemVarNames setupReqs;
                  panels = parsePanels java;
                  stepData = parseSetupSteps java;
                  steps = buildSteps panels stepData
              in Some (slug,
                   \<lparr>qd_name = name, qd_questPoints = questPoints,
                    qd_experienceRewards = experienceRewards, qd_lampRewards = lampRewards,
                    qd_skillRequirements = skillRequirements general,
                    qd_questRequirements = questRequirements general,
                    qd_questPointRequirement = questPointRequirement general,
                    qd_itemRequirements = itemRequirements, qd_steps = steps\<rparr>)))"

text \<open>
  The world of \<^verbatim>\<open>main\<close>.  The approved list is what
  \<^verbatim>\<open>Object.entries(JSON.parse(readFileSync(...)))\<close> gives, each value as \<^verbatim>\<open>v === true\<close>;
  reading or parsing may throw, and the parsed value may be \<^verbatim>\<open>null\<close>, on which
  \<^verbatim>\<open>Object.entries\<close> throws.  \<^verbatim>\<open>fetchQuestFile\<close> gives the text or throws (\<open>None\<close>);
  \<^verbatim>\<open>writeQuestFile\<close> succeeds or throws (\<open>False\<close>).
\<close>

datatype approved_file = Unreadable | Null | Entries "(string \<times> bool) list"

record world =
  approved :: approved_file
  fetchQuestFile :: "string \<Rightarrow> string option"
  writeQuestFile :: "string \<Rightarrow> QuestData \<Rightarrow> bool"

text \<open>What \<^verbatim>\<open>main\<close> does, in order, and how it ends.\<close>

datatype event =
    ReadError
  | NoneApproved
  | Fetch string
  | FetchWarning string
  | Wrote string QuestData
  | WriteWarning string
  | Done

datatype outcome = Returned | Exit1 | Uncaught

text \<open>The loop \<^verbatim>\<open>for (const displayName of toProcess)\<close> and the final log.\<close>

fun process :: "world \<Rightarrow> string list \<Rightarrow> event list \<times> outcome" where
  "process w [] = ([Done], Returned)"
| "process w (displayName # others) =
     (let url = questFileUrl displayName in
      case fetchQuestFile w url of
        None \<Rightarrow>
          (let (evs, out) = process w others in (Fetch url # FetchWarning displayName # evs, out))
      | Some java \<Rightarrow>
          (case questData displayName java of
             None \<Rightarrow> ([Fetch url], Uncaught)
           | Some (slug, data) \<Rightarrow>
               if writeQuestFile w slug data
               then (let (evs, out) = process w others in (Fetch url # Wrote slug data # evs, out))
               else (let (evs, out) = process w others
                     in (Fetch url # WriteWarning displayName # evs, out))))"

definition toProcess :: "(string \<times> bool) list \<Rightarrow> string list" where
  "toProcess entries = map fst (filter (\<lambda>(name, v). v) entries)"

definition main :: "world \<Rightarrow> event list \<times> outcome" where
  "main w =
     (case approved w of
        Unreadable \<Rightarrow> ([ReadError], Exit1)
      | Null \<Rightarrow> ([], Uncaught)
      | Entries entries \<Rightarrow>
          if toProcess entries = [] then ([NoneApproved], Returned)
          else process w (toProcess entries))"

section \<open>Properties of the batch orchestrator\<close>

text \<open>
  The fetches of a run, in order; whether the extraction of an input returns; and what one
  input contributes to the run when it does.
\<close>

definition fetches :: "event list \<Rightarrow> string list" where
  "fetches evs = concat (map (\<lambda>e. case e of Fetch url \<Rightarrow> [url] | _ \<Rightarrow> []) evs)"

definition returns :: "world \<Rightarrow> string \<Rightarrow> bool" where
  "returns w displayName =
     (case fetchQuestFile w (questFileUrl displayName) of
        None \<Rightarrow> True
      | Some java \<Rightarrow> questData displayName java \<noteq> None)"

definition events_of :: "world \<Rightarrow> string \<Rightarrow> event list" where
  "events_of w displayName =
     (let url = questFileUrl displayName in
      case fetchQuestFile w url of
        None \<Rightarrow> [Fetch url, FetchWarning displayName]
      | Some java \<Rightarrow>
          (case questData displayName java of
             None \<Rightarrow> [Fetch url]
           | Some (slug, data) \<Rightarrow>
               if writeQuestFile w slug data then [Fetch url, Wrote slug data]
               else [Fetch url, WriteWarning displayName]))"

text \<open>A set of names on which \<^verbatim>\<open>resolve\<close> goes round: none has a display string, and
  each is an alias of one of them.\<close>

definition stuck :: "(string, string) jsmap \<Rightarrow> (string, string) jsmap \<Rightarrow> string set \<Rightarrow> bool" where
  "stuck displayByVar alias C \<longleftrightarrow>
     (\<forall>n\<in>C. direct_of displayByVar n = None \<and> (\<exists>t\<in>C. target_of alias n = Some t))"

lemma resolve_stuck:
  assumes "stuck dv al C" and "n \<in> C"
  shows "resolve dv al n = None"
proof (rule ccontr)
  assume "resolve dv al n \<noteq> None"
  then obtain y where y: "resolve dv al n = Some y" by auto
  have "resolve dv' al' n' = Some y' \<Longrightarrow> dv' = dv \<Longrightarrow> al' = al \<Longrightarrow> n' \<notin> C" for dv' al' n' y'
  proof (induction dv' al' n' y' rule: resolve.raw_induct[rotated 1, consumes 1])
    case (1 resolve' dv' al' nm y')
    show ?case
    proof
      assume c: "nm \<in> C"
      then obtain t where t: "direct_of dv nm = None" "t \<in> C" "target_of al nm = Some t"
        using assms(1) unfolding stuck_def by blast
      have "resolve' dv al t = Some y'"
        using 1 t(1,3)
        by (auto simp: direct_of_def target_of_def split: option.splits if_splits)
      then have "t \<notin> C" using 1 by blast
      then show False using t(2) by simp
    qed
  qed
  then show False using y assms(2) by blast
qed

lemma resolve_keys_stuck:
  "k \<in> set ks \<Longrightarrow> resolve dv al k = None \<Longrightarrow> resolve_keys dv al ks res = None"
  by (induction ks arbitrary: res) (auto split: option.splits)

lemma alias_of_Nil: "alias_of [] = []"
  by code_simp

lemma setup_stuck:
  assumes b: "extractMethodBody java ''setupRequirements'' = Some body"
    and s: "stuck (displayByVar_of body) (alias_of body) C" and n: "n \<in> C"
  shows "parseSetupRequirements java = None"
proof -
  obtain t where t: "target_of (alias_of body) n = Some t" using s n unfolding stuck_def by blast
  then have m: "map_get (alias_of body) n \<noteq> None" by (auto simp: target_of_def split: option.splits)
  then have ne: "body \<noteq> []" using alias_of_Nil by (auto simp: map_get_def)
  have k: "n \<in> set (map fst (alias_of body))"
    using m by (simp add: map_get_def map_of_eq_None_iff)
  have "resolve (displayByVar_of body) (alias_of body) n = None" using s n by (rule resolve_stuck)
  then have "resolve_keys (displayByVar_of body) (alias_of body) (map fst (alias_of body))
      (foldl (\<lambda>res (k, v). map_set res k v) [] (displayByVar_of body)) = None"
    using k by (rule resolve_keys_stuck[rotated])
  then show ?thesis using b ne by (simp add: parseSetupRequirements_def Let_def)
qed

lemma questData_None: "questData d java = None \<longleftrightarrow> parseSetupRequirements java = None"
  by (simp add: questData_def Let_def split: option.splits)

lemma fetches_append: "fetches (xs @ ys) = fetches xs @ fetches ys"
  by (simp add: fetches_def)

lemma fetches_events_of: "fetches (events_of w d) = [questFileUrl d]"
  by (simp add: fetches_def events_of_def Let_def split: option.splits)

lemma fetches_all: "fetches (concat (map (events_of w) ds)) = map questFileUrl ds"
  by (induction ds) (simp_all add: fetches_append fetches_events_of, simp add: fetches_def)

lemma process_returns:
  "list_all (returns w) ds \<Longrightarrow> process w ds = (concat (map (events_of w) ds) @ [Done], Returned)"
  by (induction ds)
     (auto simp: returns_def events_of_def Let_def split: option.splits)

lemma process_aborts:
  "list_all (returns w) ds1 \<Longrightarrow> \<not> returns w d \<Longrightarrow>
   process w (ds1 @ d # ds2) = (concat (map (events_of w) ds1) @ [Fetch (questFileUrl d)], Uncaught)"
  by (induction ds1)
     (auto simp: returns_def events_of_def Let_def split: option.splits)

text \<open>
  C2.  When the approved list cannot be read, \<^verbatim>\<open>main\<close> logs the error and exits with
  status 1 before any input is fetched.  When the extraction returns on every input that
  is fetched, \<^verbatim>\<open>main\<close> returns normally, and it fetches every entry whose value is true
  once, in the order of the list: an input whose fetch fails is logged and skipped, an
  input whose write fails is logged and skipped, and the inputs after it are processed.
  When the extraction does not return on an input, the exception leaves \<^verbatim>\<open>main\<close>: the
  inputs after it are never fetched.  This is what happens on a source whose
  \<^verbatim>\<open>setupRequirements\<close> holds a cycle of aliases without display strings.
\<close>

theorem main_batch:
  "(approved w = Unreadable \<longrightarrow> main w = ([ReadError], Exit1)) \<and>
   (approved w = Entries entries \<and> list_all (returns w) (toProcess entries) \<longrightarrow>
      snd (main w) = Returned \<and>
      fetches (fst (main w)) = map questFileUrl (toProcess entries) \<and>
      (fst (main w) = [NoneApproved] \<or>
       fst (main w) = concat (map (events_of w) (toProcess entries)) @ [Done])) \<and>
   (approved w = Entries entries \<and> toProcess entries = earlier @ d # later \<and>
    list_all (returns w) earlier \<and> \<not> returns w d \<longrightarrow>
      main w = (concat (map (events_of w) earlier) @ [Fetch (questFileUrl d)], Uncaught) \<and>
      fetches (fst (main w)) = map questFileUrl (earlier @ [d])) \<and>
   (fetchQuestFile w (questFileUrl d) = Some java \<and>
    extractMethodBody java ''setupRequirements'' = Some body \<and>
    stuck (displayByVar_of body) (alias_of body) C \<and> n \<in> C \<longrightarrow> \<not> returns w d)"
proof (intro conjI impI)
  assume "approved w = Unreadable"
  then show "main w = ([ReadError], Exit1)" by (simp add: main_def)
next
  assume h: "approved w = Entries entries \<and> list_all (returns w) (toProcess entries)"
  show "snd (main w) = Returned"
    using h by (simp add: main_def process_returns)
  show "fetches (fst (main w)) = map questFileUrl (toProcess entries)"
    using h by (simp add: main_def process_returns fetches_append fetches_all) (simp add: fetches_def)
  show "fst (main w) = [NoneApproved] \<or>
       fst (main w) = concat (map (events_of w) (toProcess entries)) @ [Done]"
    using h by (simp add: main_def process_returns)
next
  assume h: "approved w = Entries entries \<and> toProcess entries = earlier @ d # later \<and>
    list_all (returns w) earlier \<and> \<not> returns w d"
  then show m: "main w = (concat (map (events_of w) earlier) @ [Fetch (questFileUrl d)], Uncaught)"
    by (simp add: main_def process_aborts)
  show "fetches (fst (main w)) = map questFileUrl (earlier @ [d])"
    unfolding m by (simp add: fetches_append fetches_all) (simp add: fetches_def)
next
  assume h: "fetchQuestFile w (questFileUrl d) = Some java \<and>
    extractMethodBody java ''setupRequirements'' = Some body \<and>
    stuck (displayByVar_of body) (alias_of body) C \<and> n \<in> C"
  then have "parseSetupRequirements java = None" using setup_stuck by blast
  then have "questData d java = None" unfolding questData_None .
  then show "\<not> returns w d" using h by (simp add: returns_def)
qed

theorem main_batch_witness:
  "main \<lparr>approved = Unreadable, fetchQuestFile = (\<lambda>url. None), writeQuestFile = (\<lambda>slug data. True)\<rparr>
     = ([ReadError], Exit1) \<and>
   list_all (returns
       \<lparr>approved = Entries [(''A'', True), (''B'', False), (''C'', True), (''D'', True)],
        fetchQuestFile = (\<lambda>url. if url = questFileUrl ''A'' then None
                                else if url = questFileUrl ''D'' then Some ''public class Dq extends X { }''
                                else Some ''public class Cq extends X { }''),
        writeQuestFile = (\<lambda>slug data. slug \<noteq> ''dq'')\<rparr>) [''A'', ''C'', ''D''] \<and>
   main \<lparr>approved = Entries [(''A'', True), (''B'', False), (''C'', True), (''D'', True)],
        fetchQuestFile = (\<lambda>url. if url = questFileUrl ''A'' then None
                                else if url = questFileUrl ''D'' then Some ''public class Dq extends X { }''
                                else Some ''public class Cq extends X { }''),
        writeQuestFile = (\<lambda>slug data. slug \<noteq> ''dq'')\<rparr>
     = ([Fetch (questFileUrl ''A''), FetchWarning ''A'',
         Fetch (questFileUrl ''C''),
         Wrote ''cq'' \<lparr>qd_name = ''Cq'', qd_questPoints = Num 0, qd_experienceRewards = [],
                        qd_lampRewards = None, qd_skillRequirements = [], qd_questRequirements = [],
                        qd_questPointRequirement = None, qd_itemRequirements = [], qd_steps = []\<rparr>,
         Fetch (questFileUrl ''D''), WriteWarning ''D'', Done], Returned) \<and>
   \<not> returns
       \<lparr>approved = Entries [(''A'', True), (''B'', True), (''C'', True)],
        fetchQuestFile = (\<lambda>url. if url = questFileUrl ''A'' then None
                                else Some ''public void setupRequirements(){a=a.highlighted();}''),
        writeQuestFile = (\<lambda>slug data. True)\<rparr> ''B'' \<and>
   main \<lparr>approved = Entries [(''A'', True), (''B'', True), (''C'', True)],
        fetchQuestFile = (\<lambda>url. if url = questFileUrl ''A'' then None
                                else Some ''public void setupRequirements(){a=a.highlighted();}''),
        writeQuestFile = (\<lambda>slug data. True)\<rparr>
     = ([Fetch (questFileUrl ''A''), FetchWarning ''A'', Fetch (questFileUrl ''B'')], Uncaught)"
proof -
  let ?w0 = "\<lparr>approved = Unreadable, fetchQuestFile = (\<lambda>url. None), writeQuestFile = (\<lambda>slug data. True)\<rparr>"
  let ?e1 = "[(''A'', True), (''B'', False), (''C'', True), (''D'', True)]"
  let ?w1 = "\<lparr>approved = Entries ?e1,
        fetchQuestFile = (\<lambda>url. if url = questFileUrl ''A'' then None
                                else if url = questFileUrl ''D'' then Some ''public class Dq extends X { }''
                                else Some ''public class Cq extends X { }''),
        writeQuestFile = (\<lambda>slug data. slug \<noteq> ''dq'')\<rparr>"
  let ?e2 = "[(''A'', True), (''B'', True), (''C'', True)]"
  let ?self = "''public void setupRequirements(){a=a.highlighted();}''"
  let ?w2 = "\<lparr>approved = Entries ?e2,
        fetchQuestFile = (\<lambda>url. if url = questFileUrl ''A'' then None else Some ?self),
        writeQuestFile = (\<lambda>slug data. True)\<rparr>"
  let ?trace = "[Fetch (questFileUrl ''A''), FetchWarning ''A'',
         Fetch (questFileUrl ''C''),
         Wrote ''cq'' \<lparr>qd_name = ''Cq'', qd_questPoints = Num 0, qd_experienceRewards = [],
                        qd_lampRewards = None, qd_skillRequirements = [], qd_questRequirements = [],
                        qd_questPointRequirement = None, qd_itemRequirements = [], qd_steps = []\<rparr>,
         Fetch (questFileUrl ''D''), WriteWarning ''D'', Done]"
  have 0: "main ?w0 = ([ReadError], Exit1)"
    using main_batch[where w = ?w0, THEN conjunct1] by simp
  have tp1: "toProcess ?e1 = [''A'', ''C'', ''D'']" by (simp add: toProcess_def)
  have r1: "list_all (returns ?w1) [''A'', ''C'', ''D'']" by code_simp
  have ev1: "concat (map (events_of ?w1) [''A'', ''C'', ''D'']) @ [Done] = ?trace" by code_simp
  have h1: "approved ?w1 = Entries ?e1 \<and> list_all (returns ?w1) (toProcess ?e1)"
    unfolding tp1 using r1 by simp
  have c1: "snd (main ?w1) = Returned \<and>
      fetches (fst (main ?w1)) = map questFileUrl (toProcess ?e1) \<and>
      (fst (main ?w1) = [NoneApproved] \<or>
       fst (main ?w1) = concat (map (events_of ?w1) (toProcess ?e1)) @ [Done])"
    using main_batch[where w = ?w1 and entries = ?e1, THEN conjunct2, THEN conjunct1] h1 by (rule mp)
  have "fst (main ?w1) \<noteq> [NoneApproved]"
  proof
    assume "fst (main ?w1) = [NoneApproved]"
    then have "fetches (fst (main ?w1)) = []" by (simp add: fetches_def)
    then show False using c1 unfolding tp1 by simp
  qed
  then have "fst (main ?w1) = ?trace" using c1 unfolding tp1 ev1 by blast
  then have 1: "main ?w1 = (?trace, Returned)" using c1 by (simp add: prod_eq_iff)
  have b: "extractMethodBody ?self ''setupRequirements'' = Some ''a=a.highlighted();''" by code_simp
  have dv: "displayByVar_of ''a=a.highlighted();'' = []" by code_simp
  have al: "alias_of ''a=a.highlighted();'' = [(''a'', ''a'')]" by code_simp
  have st: "stuck (displayByVar_of ''a=a.highlighted();'') (alias_of ''a=a.highlighted();'') {''a''}"
    unfolding dv al by (simp add: stuck_def direct_of_def target_of_def map_get_def)
  have f: "fetchQuestFile ?w2 (questFileUrl ''B'') = Some ?self" by code_simp
  have h4: "fetchQuestFile ?w2 (questFileUrl ''B'') = Some ?self \<and>
    extractMethodBody ?self ''setupRequirements'' = Some ''a=a.highlighted();'' \<and>
    stuck (displayByVar_of ''a=a.highlighted();'') (alias_of ''a=a.highlighted();'') {''a''} \<and>
    ''a'' \<in> {''a''}"
    using f b st by simp
  have nr: "\<not> returns ?w2 ''B''"
    using main_batch[where w = ?w2 and d = "''B''" and java = ?self and body = "''a=a.highlighted();''"
        and C = "{''a''}" and n = "''a''", THEN conjunct2, THEN conjunct2, THEN conjunct2] h4
    by (rule mp)
  have ra: "list_all (returns ?w2) [''A'']" by code_simp
  have tp2: "toProcess ?e2 = [''A''] @ ''B'' # [''C'']" by (simp add: toProcess_def)
  have ev2: "concat (map (events_of ?w2) [''A'']) @ [Fetch (questFileUrl ''B'')] =
      [Fetch (questFileUrl ''A''), FetchWarning ''A'', Fetch (questFileUrl ''B'')]" by code_simp
  have h3: "approved ?w2 = Entries ?e2 \<and> toProcess ?e2 = [''A''] @ ''B'' # [''C''] \<and>
    list_all (returns ?w2) [''A''] \<and> \<not> returns ?w2 ''B''"
    using tp2 ra nr by simp
  have "main ?w2 = (concat (map (events_of ?w2) [''A'']) @ [Fetch (questFileUrl ''B'')], Uncaught) \<and>
      fetches (fst (main ?w2)) = map questFileUrl ([''A''] @ [''B''])"
    using main_batch[where w = ?w2 and entries = ?e2 and earlier = "[''A'']" and d = "''B''" and later = "[''C'']",
        THEN conjunct2, THEN conjunct2, THEN conjunct1] h3 by (rule mp)
  then have 2: "main ?w2 = ([Fetch (questFileUrl ''A''), FetchWarning ''A'', Fetch (questFileUrl ''B'')], Uncaught)"
    unfolding ev2 by simp
  show ?thesis using 0 r1 1 nr 2 by (intro conjI)
qed

text \<open>
  C2 as stated fails on an alias cycle: with the entries A and B approved and a source for
  A in which \<^verbatim>\<open>a\<close> is an alias of \<^verbatim>\<open>b\<close> and \<^verbatim>\<open>b\<close> of \<^verbatim>\<open>a\<close>, the run ends in an
  uncaught exception after the fetch of A; nothing is written and B is never fetched.
\<close>

theorem main_alias_cycle_counterexample:
  "main \<lparr>approved = Entries [(''A'', True), (''B'', True)],
         fetchQuestFile = (\<lambda>url. Some ''public void setupRequirements(){a=b.highlighted();b=a.highlighted();}''),
         writeQuestFile = (\<lambda>slug data. True)\<rparr>
     = ([Fetch ''https://raw.githubusercontent.com/Zoinkwiz/quest-helper/master/src/main/java/com/questhelper/helpers/quests/a/A.java''],
        Uncaught)"
proof -
  let ?java = "''public void setupRequirements(){a=b.highlighted();b=a.highlighted();}''"
  let ?body = "''a=b.highlighted();b=a.highlighted();''"
  have b: "extractMethodBody ?java ''setupRequirements'' = Some ?body" by code_simp
  have dv: "displayByVar_of ?body = []" by code_simp
  have al: "alias_of ?body = [(''a'', ''b''), (''b'', ''a'')]" by code_simp
  have st: "stuck (displayByVar_of ?body) (alias_of ?body) {''a'', ''b''}"
    unfolding dv al by (simp add: stuck_def direct_of_def target_of_def map_get_def)
  have "parseSetupRequirements ?java = None"
    using setup_stuck[OF b st, where n = "''a''"] by simp
  then have q: "questData ''A'' ?java = None" unfolding questData_None .
  have u: "questFileUrl ''A'' =
      ''https://raw.githubusercontent.com/Zoinkwiz/quest-helper/master/src/main/java/com/questhelper/helpers/quests/a/A.java''"
    by code_simp
  have tp: "toProcess [(''A'', True), (''B'', True)] = [''A'', ''B'']" by (simp add: toProcess_def)
  show ?thesis unfolding main_def by (simp add: tp Let_def q u)
qed

end
